theory Spec2Isabelle
  imports Complex_Main
begin

section \<open>JavaScript values\<close>

text \<open>
  The payloads handled by the services are JSON values parsed by the HTTP layer.
  A number is the rational it denotes (every finite JavaScript number is one; NaN
  and the infinities do not occur in JSON, and negative zero is not modelled), a
  string is a list of 8-bit code units. An object is its list of own properties in enumeration order;
  an array is the list of its elements, where \<open>JUndefined\<close> stands for a hole.
  \<open>JArrN\<close> is an array that also has own properties under names that are not
  array indices, as an assignment \<open>a[name] = v\<close> leaves it; JSON never yields
  one, but rebuilding a tree from records can.
\<close>

datatype jsval =
    JUndefined
  | JNull
  | JBool bool
  | JNum rat
  | JStr string
  | JArr "jsval list"
  | JObj "(string \<times> jsval) list"
  | JArrN "jsval list" "(string \<times> jsval) list"

datatype js_error =
    SessionNotFound
  | TypeError
  | RangeError
  | SqliteError
  | FailedTo string js_error

text \<open>ToBoolean, as used by \<open>!x\<close>, \<open>x || y\<close>, \<open>x ? a : b\<close> and \<open>if (x)\<close>.\<close>

fun truthy :: "jsval \<Rightarrow> bool" where
  "truthy JUndefined = False"
| "truthy JNull = False"
| "truthy (JBool b) = b"
| "truthy (JNum n) = (n \<noteq> 0)"
| "truthy (JStr s) = (s \<noteq> [])"
| "truthy (JArr xs) = True"
| "truthy (JObj ps) = True"
| "truthy (JArrN xs ps) = True"

definition js_or :: "jsval \<Rightarrow> jsval \<Rightarrow> jsval" where
  "js_or a b = (if truthy a then a else b)"

fun nullish :: "jsval \<Rightarrow> bool" where
  "nullish JUndefined = True"
| "nullish JNull = True"
| "nullish v = False"

text \<open>
  \<open>v?.k\<close> for a property name \<open>k\<close> that no built-in prototype defines and that
  is not an array index (every name read by the services is of that kind): an own
  property of an object or of an array with named properties, undefined on
  anything else.
\<close>

fun opt_field :: "jsval \<Rightarrow> string \<Rightarrow> jsval" where
  "opt_field (JObj ps) k = (case map_of ps k of Some x \<Rightarrow> x | None \<Rightarrow> JUndefined)"
| "opt_field (JArrN xs ps) k = (case map_of ps k of Some x \<Rightarrow> x | None \<Rightarrow> JUndefined)"
| "opt_field v k = JUndefined"

text \<open>\<open>v.k\<close>: as \<open>v?.k\<close>, but reading a property of null or undefined throws.\<close>

definition dot_field :: "jsval \<Rightarrow> string \<Rightarrow> js_error + jsval" where
  "dot_field v k = (if nullish v then Inl TypeError else Inr (opt_field v k))"

section \<open>Completion derivation\<close>

definition determineCompletion :: "jsval \<Rightarrow> js_error + bool" where
  "determineCompletion commitData =
     (case dot_field commitData ''cmi'' of
        Inl e \<Rightarrow> Inl e
      | Inr c \<Rightarrow>
          (let cmi = js_or c (JObj []) in
           if truthy (opt_field cmi ''completion_status'')
           then Inr (opt_field cmi ''completion_status'' = JStr ''completed'')
           else if truthy (opt_field (opt_field cmi ''core'') ''lesson_status'')
           then (let status = opt_field (opt_field cmi ''core'') ''lesson_status''
                 in Inr (status = JStr ''completed'' \<or> status = JStr ''passed''))
           else Inr False))"

text \<open>The two fields the derivation reads, named as in the payload.\<close>

definition completion_status_of :: "jsval \<Rightarrow> jsval" where
  "completion_status_of commitData = opt_field (opt_field commitData ''cmi'') ''completion_status''"

definition lesson_status_of :: "jsval \<Rightarrow> jsval" where
  "lesson_status_of commitData =
     opt_field (opt_field (opt_field commitData ''cmi'') ''core'') ''lesson_status''"


section \<open>Built-in functions left open\<close>

text \<open>
  The built-in functions whose results the services only pass on are parameters:
  \<open>Number::toString\<close> for a number that is not a safe integer (a fraction, or
  an integer from \<open>2^53\<close> on, where the exponent form sets in),
  \<open>JSON.stringify\<close> on a defined value, \<open>new Date(x).getTime()\<close>, and
  \<open>JSON.parse\<close> (\<open>None\<close> when it throws). Nothing is assumed of them.
\<close>

record js_env =
  Number_toString :: "rat \<Rightarrow> string"
  JSON_stringify :: "jsval \<Rightarrow> string"
  Date_getTime :: "jsval \<Rightarrow> jsval"
  JSON_parse :: "string \<Rightarrow> jsval option"

section \<open>Numbers and strings\<close>

definition digit_char :: "nat \<Rightarrow> char" where
  "digit_char d = ''0123456789'' ! d"

function dec :: "nat \<Rightarrow> string" where
  "dec n = (if n < 10 then [digit_char n] else dec (n div 10) @ [digit_char (n mod 10)])"
  by pat_completeness auto
termination
  by (relation "measure (\<lambda>n. n)") auto

declare dec.simps [simp del]

definition int_digits :: "int \<Rightarrow> string" where
  "int_digits i = (if i < 0 then CHR ''-'' # dec (nat (- i)) else dec (nat i))"

definition is_digit :: "char \<Rightarrow> bool" where
  "is_digit c = (c \<in> set ''0123456789'')"

definition digit_val :: "char \<Rightarrow> nat" where
  "digit_val c =
     (if is_digit c then of_char c - 48
      else if c \<in> set ''abcdef'' then of_char c - 87
      else of_char c - 55)"

definition digits_val :: "nat \<Rightarrow> string \<Rightarrow> nat" where
  "digits_val radix ds = foldl (\<lambda>acc c. acc * radix + digit_val c) 0 ds"

text \<open>
  \<open>String(n)\<close>. A safe integer (an integer of magnitude below \<open>2^53\<close>) prints
  as its decimal digits; every other number is left to \<open>Number::toString\<close>.
\<close>

definition safe_integer :: "rat \<Rightarrow> bool" where
  "safe_integer x = (of_int \<lfloor>x\<rfloor> = x \<and> \<bar>x\<bar> < 9007199254740992)"

definition String_num :: "js_env \<Rightarrow> rat \<Rightarrow> string" where
  "String_num env x = (if safe_integer x then int_digits \<lfloor>x\<rfloor> else Number_toString env x)"

text \<open>
  \<open>String(v)\<close>. An array prints its elements joined by commas, null and
  undefined elements as nothing; a plain object prints as \<open>[object Object]\<close>.
\<close>

fun String_of :: "js_env \<Rightarrow> jsval \<Rightarrow> string"
  and join_items :: "js_env \<Rightarrow> jsval list \<Rightarrow> string"
where
  "String_of env JUndefined = ''undefined''"
| "String_of env JNull = ''null''"
| "String_of env (JBool b) = (if b then ''true'' else ''false'')"
| "String_of env (JNum n) = String_num env n"
| "String_of env (JStr s) = s"
| "String_of env (JArr xs) = join_items env xs"
| "String_of env (JObj ps) = ''[object Object]''"
| "String_of env (JArrN xs ps) = join_items env xs"
| "join_items env [] = []"
| "join_items env (x # xs) =
     (case x of JUndefined \<Rightarrow> [] | JNull \<Rightarrow> [] | _ \<Rightarrow> String_of env x)
     @ (if xs = [] then [] else '','' @ join_items env xs)"

section \<open>The database\<close>

text \<open>
  The four tables the services use, each a list of rows in insertion order, and
  two conversions of the database engine that are left open: \<open>real_text\<close>, the
  text the engine makes of a number stored in a TEXT column, for a number other
  than an integer of magnitude below \<open>10^15\<close>; and \<open>text_real\<close>, the number the
  engine reads in a text stored in a numeric column, for a text other than a run
  of at most 15 digits (\<open>None\<close> when the text is not a well-formed number). The
  clock \<open>strftime('%s','now')\<close> is the parameter \<open>now\<close> of every writing
  operation.
\<close>

record session_row =
  sess_id :: string
  sess_package_id :: string
  sess_user_id :: jsval
  started_at :: nat
  last_accessed :: nat
  completed :: nat
  success_status :: jsval
  score_raw :: jsval
  score_min :: jsval
  score_max :: jsval
  session_time :: jsval
  total_time :: jsval
  suspend_data :: jsval

record cmi_row =
  cmi_id :: nat
  cmi_session_id :: string
  element :: string
  cmi_value :: jsval
  cmi_timestamp :: nat

record sync_item =
  sync_id :: nat
  sync_session_id :: string
  sync_package_id :: string
  action :: string
  data :: jsval
  created_at :: nat
  synced :: nat
  synced_at :: "nat option"
  retry_count :: nat

record interaction_row =
  int_session_id :: string
  interaction_id :: jsval
  int_type :: jsval
  int_timestamp :: jsval
  correct_responses :: jsval
  learner_response :: jsval
  int_result :: jsval
  latency :: jsval
  description :: jsval

record db =
  scorm_sessions :: "session_row list"
  cmi_data :: "cmi_row list"
  sync_queue :: "sync_item list"
  interactions :: "interaction_row list"
  real_text :: "rat \<Rightarrow> string"
  text_real :: "string \<Rightarrow> rat option"

subsection \<open>Parameter binding\<close>

text \<open>
  The driver takes the arguments of \<open>run\<close> in turn. An array contributes its
  elements, one parameter each; a plain object stands for named parameters, of
  which the statements here have none, and a second such object is refused; any
  other argument is one parameter. A number, a string, or null or undefined (as
  NULL) is bound to the next parameter; any other value is refused with a
  TypeError, and a value beyond the last parameter with a RangeError. In the end
  as many values must be bound as the statement has parameters.
\<close>

fun bind_value :: "jsval \<Rightarrow> jsval option" where
  "bind_value JUndefined = Some JNull"
| "bind_value JNull = Some JNull"
| "bind_value (JNum n) = Some (JNum n)"
| "bind_value (JStr s) = Some (JStr s)"
| "bind_value v = None"

definition bind_next :: "nat \<Rightarrow> jsval list \<Rightarrow> jsval \<Rightarrow> js_error + jsval list" where
  "bind_next n bound v =
     (case bind_value v of
        None \<Rightarrow> Inl TypeError
      | Some b \<Rightarrow> if length bound < n then Inr (bound @ [b]) else Inl RangeError)"

fun bind_elements :: "nat \<Rightarrow> jsval list \<Rightarrow> jsval list \<Rightarrow> js_error + jsval list" where
  "bind_elements n bound [] = Inr bound"
| "bind_elements n bound (x # xs) =
     (case bind_next n bound x of
        Inl e \<Rightarrow> Inl e
      | Inr bound' \<Rightarrow> bind_elements n bound' xs)"

fun bind_from :: "nat \<Rightarrow> bool \<Rightarrow> jsval list \<Rightarrow> jsval list \<Rightarrow> js_error + jsval list" where
  "bind_from n named bound [] = (if length bound = n then Inr bound else Inl RangeError)"
| "bind_from n named bound (a # args) =
     (case a of
        JArr xs \<Rightarrow>
          (case bind_elements n bound xs of
             Inl e \<Rightarrow> Inl e
           | Inr bound' \<Rightarrow> bind_from n named bound' args)
      | JArrN xs ps \<Rightarrow>
          (case bind_elements n bound xs of
             Inl e \<Rightarrow> Inl e
           | Inr bound' \<Rightarrow> bind_from n named bound' args)
      | JObj ps \<Rightarrow> if named then Inl TypeError else bind_from n True bound args
      | _ \<Rightarrow>
          (case bind_next n bound a of
             Inl e \<Rightarrow> Inl e
           | Inr bound' \<Rightarrow> bind_from n named bound' args))"

definition bind_args :: "nat \<Rightarrow> jsval list \<Rightarrow> js_error + jsval list" where
  "bind_args n args = bind_from n False [] args"

subsection \<open>Column affinity\<close>

text \<open>
  The driver binds every number as a floating-point value. A TEXT column stores
  it as text, an integer below \<open>10^15\<close> as its digits followed by \<open>.0\<close>. A
  numeric column (INTEGER or REAL) stores a text that is a well-formed number as
  that number, and any other text as it is. A column is read back as a string or
  as a number accordingly.
\<close>

definition text_of_num :: "db \<Rightarrow> rat \<Rightarrow> string" where
  "text_of_num d x =
     (if of_int \<lfloor>x\<rfloor> = x \<and> \<bar>x\<bar> < 1000000000000000 then int_digits \<lfloor>x\<rfloor> @ ''.0''
      else real_text d x)"

fun text_affinity :: "db \<Rightarrow> jsval \<Rightarrow> jsval" where
  "text_affinity d (JNum x) = JStr (text_of_num d x)"
| "text_affinity d v = v"

definition num_of_text :: "db \<Rightarrow> string \<Rightarrow> rat option" where
  "num_of_text d s =
     (if s \<noteq> [] \<and> list_all is_digit s \<and> length s \<le> 15 then Some (of_nat (digits_val 10 s))
      else text_real d s)"

fun numeric_affinity :: "db \<Rightarrow> jsval \<Rightarrow> jsval" where
  "numeric_affinity d (JStr s) = (case num_of_text d s of Some x \<Rightarrow> JNum x | None \<Rightarrow> JStr s)"
| "numeric_affinity d v = v"

text \<open>AUTOINCREMENT: one more than the largest id in use (rows are never deleted).\<close>

definition next_id :: "nat list \<Rightarrow> nat" where
  "next_id ids = Suc (fold max ids 0)"

subsection \<open>Prepared statements\<close>

definition stmt_getSession :: "db \<Rightarrow> string \<Rightarrow> session_row option" where
  "stmt_getSession d sid = find (\<lambda>s. sess_id s = sid) (scorm_sessions d)"

text \<open>
  \<open>updateSession\<close>, with the completion flag \<open>completed ? 1 : 0\<close> as \<open>c\<close>. The
  last value bound is compared with the TEXT column \<open>id\<close>, as text.
\<close>

definition stmt_updateSession ::
  "nat \<Rightarrow> db \<Rightarrow> nat \<Rightarrow> jsval \<Rightarrow> jsval \<Rightarrow> jsval \<Rightarrow> jsval \<Rightarrow> jsval \<Rightarrow> string
     \<Rightarrow> js_error + db" where
  "stmt_updateSession now d c st sr stime ttime sd sid =
     (case bind_args 7 [JNum (of_nat c), st, sr, stime, ttime, sd, JStr sid] of
        Inl e \<Rightarrow> Inl e
      | Inr bound \<Rightarrow>
          Inr (d\<lparr>scorm_sessions :=
                 map (\<lambda>s. if JStr (sess_id s) = text_affinity d (bound ! 6)
                           then s\<lparr>last_accessed := now,
                                  completed := c,
                                  success_status := text_affinity d (bound ! 1),
                                  score_raw := numeric_affinity d (bound ! 2),
                                  session_time := text_affinity d (bound ! 3),
                                  total_time := text_affinity d (bound ! 4),
                                  suspend_data := text_affinity d (bound ! 5)\<rparr>
                           else s)
                     (scorm_sessions d)\<rparr>))"

text \<open>
  \<open>insertCmiData\<close>: the arguments must bind, and the foreign key on
  \<open>session_id\<close> (foreign keys are switched on) must find the session.
\<close>

definition stmt_insertCmiData :: "nat \<Rightarrow> db \<Rightarrow> string \<Rightarrow> string \<Rightarrow> jsval \<Rightarrow> js_error + db" where
  "stmt_insertCmiData now d sid el v =
     (case bind_args 3 [JStr sid, JStr el, v] of
        Inl e \<Rightarrow> Inl e
      | Inr bound \<Rightarrow>
          (if stmt_getSession d sid = None then Inl SqliteError
           else Inr (d\<lparr>cmi_data := cmi_data d @
                   [\<lparr>cmi_id = next_id (map cmi_id (cmi_data d)), cmi_session_id = sid,
                     element = el, cmi_value = text_affinity d (bound ! 2),
                     cmi_timestamp = now\<rparr>]\<rparr>)))"

text \<open>
  \<open>ORDER BY timestamp DESC LIMIT 1\<close>: the first row of the descending order,
  in which rows with equal timestamps keep their insertion order.
\<close>

definition stmt_getCmiData :: "db \<Rightarrow> string \<Rightarrow> string \<Rightarrow> cmi_row option" where
  "stmt_getCmiData d sid el =
     (case rev (sort_key cmi_timestamp
                 (rev (filter (\<lambda>r. cmi_session_id r = sid \<and> element r = el) (cmi_data d)))) of
        [] \<Rightarrow> None
      | r # _ \<Rightarrow> Some r)"

text \<open>\<open>ORDER BY timestamp ASC\<close>: rows with equal timestamps keep their insertion order.\<close>

definition stmt_getAllCmiData :: "db \<Rightarrow> string \<Rightarrow> cmi_row list" where
  "stmt_getAllCmiData d sid =
     sort_key cmi_timestamp (filter (\<lambda>r. cmi_session_id r = sid) (cmi_data d))"

text \<open>
  \<open>insertSyncItem\<close>: the columns \<open>session_id\<close>, \<open>package_id\<close> and \<open>action\<close> are
  TEXT NOT NULL, so a NULL bound to one of them fails the insert; the table has no
  foreign key.
\<close>

definition not_null_text :: "db \<Rightarrow> jsval \<Rightarrow> string option" where
  "not_null_text d v = (case text_affinity d v of JStr s \<Rightarrow> Some s | _ \<Rightarrow> None)"

definition stmt_insertSyncItem :: "nat \<Rightarrow> db \<Rightarrow> jsval \<Rightarrow> jsval \<Rightarrow> jsval \<Rightarrow> jsval \<Rightarrow> js_error + db" where
  "stmt_insertSyncItem now d sid pid act dat =
     (case bind_args 4 [sid, pid, act, dat] of
        Inl e \<Rightarrow> Inl e
      | Inr bound \<Rightarrow>
          (case (not_null_text d (bound ! 0), not_null_text d (bound ! 1),
                 not_null_text d (bound ! 2)) of
             (Some s, Some p, Some a) \<Rightarrow>
               Inr (d\<lparr>sync_queue := sync_queue d @
                      [\<lparr>sync_id = next_id (map sync_id (sync_queue d)), sync_session_id = s,
                        sync_package_id = p, action = a, data = text_affinity d (bound ! 3),
                        created_at = now, synced = 0, synced_at = None, retry_count = 0\<rparr>]\<rparr>)
           | _ \<Rightarrow> Inl SqliteError))"

definition stmt_getPendingSync :: "db \<Rightarrow> nat \<Rightarrow> sync_item list" where
  "stmt_getPendingSync d limit =
     take limit (sort_key created_at (filter (\<lambda>i. synced i = 0) (sync_queue d)))"

definition stmt_markSynced :: "nat \<Rightarrow> db \<Rightarrow> nat \<Rightarrow> db" where
  "stmt_markSynced now d i =
     d\<lparr>sync_queue := map (\<lambda>q. if sync_id q = i then q\<lparr>synced := 1, synced_at := Some now\<rparr> else q)
                           (sync_queue d)\<rparr>"

definition stmt_incrementRetry :: "db \<Rightarrow> nat \<Rightarrow> db" where
  "stmt_incrementRetry d i =
     d\<lparr>sync_queue := map (\<lambda>q. if sync_id q = i then q\<lparr>retry_count := retry_count q + 1\<rparr> else q)
                           (sync_queue d)\<rparr>"

text \<open>
  \<open>insertInteraction\<close>, with the eight values that follow the session id:
  \<open>interaction_id\<close> is TEXT NOT NULL, \<open>timestamp\<close> is an INTEGER column, the
  others are TEXT, and the foreign key must find the session.
\<close>

definition stmt_insertInteraction :: "db \<Rightarrow> string \<Rightarrow> jsval list \<Rightarrow> js_error + db" where
  "stmt_insertInteraction d sid vs =
     (case bind_args 9 (JStr sid # vs) of
        Inl e \<Rightarrow> Inl e
      | Inr bound \<Rightarrow>
          (if text_affinity d (bound ! 1) = JNull \<or> stmt_getSession d sid = None
           then Inl SqliteError
           else Inr (d\<lparr>interactions := interactions d @
                  [\<lparr>int_session_id = sid, interaction_id = text_affinity d (bound ! 1),
                    int_type = text_affinity d (bound ! 2),
                    int_timestamp = numeric_affinity d (bound ! 3),
                    correct_responses = text_affinity d (bound ! 4),
                    learner_response = text_affinity d (bound ! 5),
                    int_result = text_affinity d (bound ! 6),
                    latency = text_affinity d (bound ! 7),
                    description = text_affinity d (bound ! 8)\<rparr>]\<rparr>)))"

section \<open>SCORM API service\<close>

definition getSession :: "db \<Rightarrow> string \<Rightarrow> session_row option" where
  "getSession d sessionId = stmt_getSession d sessionId"

definition setCmiData :: "nat \<Rightarrow> db \<Rightarrow> string \<Rightarrow> string \<Rightarrow> jsval \<Rightarrow> js_error + db" where
  "setCmiData now d sessionId el v =
     (case stmt_insertCmiData now d sessionId el v of
        Inl e \<Rightarrow> Inl (FailedTo ''set CMI data'' e)
      | Inr d' \<Rightarrow> Inr d')"

subsection \<open>Flattening a tree into records\<close>

text \<open>
  \<open>storeCmiData\<close> walks the tree and calls \<open>setCmiData\<close> once per leaf. The walk
  is modelled by the calls it makes, in order, as pairs of element path and
  string value, together with the exception that ends it, if any
  (\<open>Object.entries(null)\<close> throws when an array holds null, since
  \<open>typeof null\<close> is \<open>object\<close>). The entries of an array are those of its
  elements, then those of its named properties.
\<close>

type_synonym cmi_calls = "js_error option \<times> (string \<times> string) list"

definition then_calls :: "cmi_calls \<Rightarrow> cmi_calls \<Rightarrow> cmi_calls" where
  "then_calls a b = (case a of (Some e, ws) \<Rightarrow> (Some e, ws)
                      | (None, ws) \<Rightarrow> (fst b, ws @ snd b))"

definition element_of :: "string \<Rightarrow> string \<Rightarrow> string" where
  "element_of prefix key = (if prefix \<noteq> [] then prefix @ ''.'' @ key else key)"

text \<open>The entries of a one-character-per-index string, all primitive.\<close>

fun string_calls :: "string \<Rightarrow> nat \<Rightarrow> string \<Rightarrow> (string \<times> string) list" where
  "string_calls [] i prefix = []"
| "string_calls (c # cs) i prefix = (element_of prefix (dec i), [c]) # string_calls cs (Suc i) prefix"

fun storeCmiData_calls :: "js_env \<Rightarrow> jsval \<Rightarrow> string \<Rightarrow> cmi_calls"
  and entries_calls :: "js_env \<Rightarrow> (string \<times> jsval) list \<Rightarrow> string \<Rightarrow> cmi_calls"
  and index_entries_calls :: "js_env \<Rightarrow> jsval list \<Rightarrow> nat \<Rightarrow> string \<Rightarrow> cmi_calls"
  and entry_calls :: "js_env \<Rightarrow> jsval \<Rightarrow> string \<Rightarrow> cmi_calls"
  and forEach_calls :: "js_env \<Rightarrow> jsval list \<Rightarrow> nat \<Rightarrow> string \<Rightarrow> cmi_calls"
where
  "storeCmiData_calls env (JObj ps) prefix = entries_calls env ps prefix"
| "storeCmiData_calls env (JArr xs) prefix = index_entries_calls env xs 0 prefix"
| "storeCmiData_calls env (JStr s) prefix = (None, string_calls s 0 prefix)"
| "storeCmiData_calls env (JNum n) prefix = (None, [])"
| "storeCmiData_calls env (JBool b) prefix = (None, [])"
| "storeCmiData_calls env JNull prefix = (Some TypeError, [])"
| "storeCmiData_calls env JUndefined prefix = (Some TypeError, [])"
| "entries_calls env [] prefix = (None, [])"
| "entries_calls env ((key, v) # ps) prefix =
     then_calls (entry_calls env v (element_of prefix key)) (entries_calls env ps prefix)"
| "index_entries_calls env [] i prefix = (None, [])"
| "index_entries_calls env (x # xs) i prefix =
     (if x = JUndefined then index_entries_calls env xs (Suc i) prefix
      else then_calls (entry_calls env x (element_of prefix (dec i)))
                      (index_entries_calls env xs (Suc i) prefix))"
| "entry_calls env (JObj ps) el = entries_calls env ps el"
| "entry_calls env (JArr xs) el = forEach_calls env xs 0 el"
| "entry_calls env JUndefined el = (None, [(el, String_of env JUndefined)])"
| "entry_calls env JNull el = (None, [(el, String_of env JNull)])"
| "entry_calls env (JBool b) el = (None, [(el, String_of env (JBool b))])"
| "entry_calls env (JNum n) el = (None, [(el, String_of env (JNum n))])"
| "entry_calls env (JStr s) el = (None, [(el, String_of env (JStr s))])"
| "forEach_calls env [] i el = (None, [])"
| "forEach_calls env (item # items) i el =
     then_calls
       (case item of
          JUndefined \<Rightarrow> (None, [])
        | JNull \<Rightarrow> storeCmiData_calls env JNull (el @ ''.'' @ dec i)
        | JObj ps \<Rightarrow> entries_calls env ps (el @ ''.'' @ dec i)
        | JArr xs \<Rightarrow> index_entries_calls env xs 0 (el @ ''.'' @ dec i)
        | JArrN xs ps \<Rightarrow>
            then_calls (index_entries_calls env xs 0 (el @ ''.'' @ dec i))
                       (entries_calls env ps (el @ ''.'' @ dec i))
        | _ \<Rightarrow> (None, [(el @ ''.'' @ dec i, String_of env item)]))
       (forEach_calls env items (Suc i) el)"
| "storeCmiData_calls env (JArrN xs ps) prefix =
     then_calls (index_entries_calls env xs 0 prefix) (entries_calls env ps prefix)"
| "entry_calls env (JArrN xs ps) el = forEach_calls env xs 0 el"

text \<open>The calls are then run against the database, stopping at the first that throws.\<close>

fun setCmiData_all :: "nat \<Rightarrow> db \<Rightarrow> string \<Rightarrow> (string \<times> string) list \<Rightarrow> js_error option \<times> db" where
  "setCmiData_all now d sessionId [] = (None, d)"
| "setCmiData_all now d sessionId ((el, v) # ws) =
     (case setCmiData now d sessionId el (JStr v) of
        Inl e \<Rightarrow> (Some e, d)
      | Inr d' \<Rightarrow> setCmiData_all now d' sessionId ws)"

definition storeCmiData ::
  "js_env \<Rightarrow> nat \<Rightarrow> db \<Rightarrow> string \<Rightarrow> jsval \<Rightarrow> string \<Rightarrow> js_error option \<times> db" where
  "storeCmiData env now d sessionId cmi prefix =
     (case storeCmiData_calls env cmi prefix of
        (err, ws) \<Rightarrow>
          (case setCmiData_all now d sessionId ws of
             (Some e, d') \<Rightarrow> (Some e, d')
           | (None, d') \<Rightarrow> (err, d')))"

subsection \<open>Rebuilding the tree from records\<close>

text \<open>\<open>path.split('.')\<close>: always at least one segment.\<close>

fun split_dot :: "string \<Rightarrow> string list" where
  "split_dot [] = [[]]"
| "split_dot (c # cs) =
     (if c = CHR ''.'' then [] # split_dot cs
      else (case split_dot cs of k # ks \<Rightarrow> (c # k) # ks | [] \<Rightarrow> [[c]]))"

text \<open>
  \<open>!isNaN(key)\<close> on a string: the key converts to a number. The conversion trims
  white space, reads the empty string as 0, and accepts a signed decimal literal
  (digits, fraction, exponent, or \<open>Infinity\<close>) or an unsigned binary, octal or
  hexadecimal literal.
\<close>

definition js_space :: "char \<Rightarrow> bool" where
  "js_space c = (c \<in> set [CHR 0x09, CHR 0x0A, CHR 0x0B, CHR 0x0C, CHR 0x0D, CHR 0x20, CHR 0xA0])"

definition is_hex_digit :: "char \<Rightarrow> bool" where
  "is_hex_digit c = (c \<in> set ''0123456789abcdefABCDEF'')"

definition trim :: "string \<Rightarrow> string" where
  "trim s = rev (dropWhile js_space (rev (dropWhile js_space s)))"

definition exponent_ok :: "string \<Rightarrow> bool" where
  "exponent_ok r =
     (case r of
        [] \<Rightarrow> True
      | c # r' \<Rightarrow>
          (c = CHR ''e'' \<or> c = CHR ''E'') \<and>
          (let ds = (case r' of s # r'' \<Rightarrow> if s = CHR ''+'' \<or> s = CHR ''-'' then r'' else r' | [] \<Rightarrow> r')
           in ds \<noteq> [] \<and> list_all is_digit ds))"

definition unsigned_decimal :: "string \<Rightarrow> bool" where
  "unsigned_decimal s =
     (s = ''Infinity'' \<or>
      (let ip = takeWhile is_digit s; r1 = dropWhile is_digit s in
       case r1 of
         c # r2 \<Rightarrow>
           if c = CHR ''.''
           then (ip \<noteq> [] \<or> takeWhile is_digit r2 \<noteq> []) \<and> exponent_ok (dropWhile is_digit r2)
           else ip \<noteq> [] \<and> exponent_ok r1
       | [] \<Rightarrow> ip \<noteq> []))"

definition non_decimal :: "string \<Rightarrow> bool" where
  "non_decimal s =
     (case s of
        z # x # ds \<Rightarrow>
          z = CHR ''0'' \<and> ds \<noteq> [] \<and>
          (if x = CHR ''x'' \<or> x = CHR ''X'' then list_all is_hex_digit ds
           else if x = CHR ''o'' \<or> x = CHR ''O'' then list_all (\<lambda>c. c \<in> set ''01234567'') ds
           else if x = CHR ''b'' \<or> x = CHR ''B'' then list_all (\<lambda>c. c \<in> set ''01'') ds
           else False)
      | _ \<Rightarrow> False)"

definition is_numeric :: "string \<Rightarrow> bool" where
  "is_numeric key =
     (let t = trim key in
      t = [] \<or> non_decimal t \<or>
      unsigned_decimal (case t of c # r \<Rightarrow> if c = CHR ''+'' \<or> c = CHR ''-'' then r else t | [] \<Rightarrow> t))"

text \<open>
  \<open>parseInt(key)\<close>: leading white space and a sign are skipped, a \<open>0x\<close> prefix
  selects radix 16, and the longest prefix of digits is read; \<open>None\<close> is NaN.
\<close>

definition parseInt :: "string \<Rightarrow> int option" where
  "parseInt key =
     (let t = dropWhile js_space key;
          neg = (case t of c # _ \<Rightarrow> c = CHR ''-'' | [] \<Rightarrow> False);
          u = (case t of c # r \<Rightarrow> if c = CHR ''+'' \<or> c = CHR ''-'' then r else t | [] \<Rightarrow> t);
          hex = (case u of z # x # _ \<Rightarrow> z = CHR ''0'' \<and> (x = CHR ''x'' \<or> x = CHR ''X'') | _ \<Rightarrow> False);
          ds = (if hex then takeWhile is_hex_digit (drop 2 u) else takeWhile is_digit u)
      in if ds = [] then None
         else (let n = int (digits_val (if hex then 16 else 10) ds)
               in Some (if neg then - n else n)))"

text \<open>
  A property key is an array index when it is the canonical decimal text of an
  integer below \<open>2^32 - 1\<close>.
\<close>

definition array_index :: "string \<Rightarrow> nat option" where
  "array_index k =
     (if k \<noteq> [] \<and> list_all is_digit k \<and> (k = ''0'' \<or> hd k \<noteq> CHR ''0'')
         \<and> digits_val 10 k < 4294967295
      then Some (digits_val 10 k) else None)"

text \<open>
  Property names every object inherits. Reading one of them yields a built-in
  function rather than stored data; the model does not follow the code there.
\<close>

definition object_proto_names :: "string list" where
  "object_proto_names =
     [''constructor'', ''__proto__'', ''hasOwnProperty'', ''isPrototypeOf'',
      ''propertyIsEnumerable'', ''toLocaleString'', ''toString'', ''valueOf'',
      ''__defineGetter__'', ''__defineSetter__'', ''__lookupGetter__'', ''__lookupSetter__'']"

text \<open>
  Assigning an own property: an existing key keeps its place; a new array-index
  key goes among the index keys in ascending order, which an object enumerates
  first; any other new key goes last.
\<close>

fun obj_insert_index :: "nat \<Rightarrow> string \<Rightarrow> jsval \<Rightarrow> (string \<times> jsval) list \<Rightarrow> (string \<times> jsval) list" where
  "obj_insert_index n k v [] = [(k, v)]"
| "obj_insert_index n k v ((k', v') # ps) =
     (case array_index k' of
        Some m \<Rightarrow> if m < n then (k', v') # obj_insert_index n k v ps else (k, v) # (k', v') # ps
      | None \<Rightarrow> (k, v) # (k', v') # ps)"

definition obj_set :: "(string \<times> jsval) list \<Rightarrow> string \<Rightarrow> jsval \<Rightarrow> (string \<times> jsval) list" where
  "obj_set ps k v =
     (if k \<in> fst ` set ps then map (\<lambda>(k', v'). if k' = k then (k', v) else (k', v')) ps
      else (case array_index k of
              Some n \<Rightarrow> obj_insert_index n k v ps
            | None \<Rightarrow> ps @ [(k, v)]))"

text \<open>Assigning an array element: writing past the end leaves holes.\<close>

definition arr_set :: "jsval list \<Rightarrow> nat \<Rightarrow> jsval \<Rightarrow> jsval list" where
  "arr_set xs n v =
     (if n < length xs then xs[n := v]
      else xs @ replicate (n - length xs) JUndefined @ [v])"

text \<open>
  An array seen as its elements and its named properties, and a property of it
  read and written through a key. A key that is an array index addresses an
  element; any other key is a named property. (The keys used here are numeric
  texts and \<open>NaN\<close>, none of which an array inherits.)
\<close>

fun array_parts :: "jsval \<Rightarrow> (jsval list \<times> (string \<times> jsval) list) option" where
  "array_parts (JArr xs) = Some (xs, [])"
| "array_parts (JArrN xs ps) = Some (xs, ps)"
| "array_parts v = None"

definition mk_array :: "jsval list \<Rightarrow> (string \<times> jsval) list \<Rightarrow> jsval" where
  "mk_array xs ps = (if ps = [] then JArr xs else JArrN xs ps)"

definition arr_get :: "jsval list \<Rightarrow> (string \<times> jsval) list \<Rightarrow> string \<Rightarrow> jsval" where
  "arr_get xs ps k =
     (case array_index k of
        Some n \<Rightarrow> if n < length xs then xs ! n else JUndefined
      | None \<Rightarrow> (case map_of ps k of Some x \<Rightarrow> x | None \<Rightarrow> JUndefined))"

definition arr_put :: "jsval list \<Rightarrow> (string \<times> jsval) list \<Rightarrow> string \<Rightarrow> jsval \<Rightarrow> jsval" where
  "arr_put xs ps k v =
     (case array_index k of
        Some n \<Rightarrow> mk_array (arr_set xs n v) ps
      | None \<Rightarrow> JArrN xs (obj_set ps k v))"

text \<open>
  The property key that \<open>current[index]\<close> uses for the number \<open>index\<close>: the
  key \<open>NaN\<close> for NaN, the digits of a safe integer. \<open>None\<close> marks what the
  model does not cover: an integer beyond the safe range.
\<close>

definition index_key :: "int option \<Rightarrow> string option" where
  "index_key index =
     (case index of
        None \<Rightarrow> Some ''NaN''
      | Some i \<Rightarrow> if \<bar>i\<bar> < 9007199254740992 then Some (int_digits i) else None)"

text \<open>
  \<open>current[lastKey] = value\<close>. The module is strict-mode code, so assigning a
  property of a primitive throws. \<open>None\<close> marks what the model does not cover:
  an inherited name on an object, or a name on an array that is not a numeric
  text.
\<close>

fun assign_prop :: "jsval \<Rightarrow> string \<Rightarrow> jsval \<Rightarrow> (js_error + jsval) option" where
  "assign_prop (JObj ps) lastKey v =
     (if lastKey \<in> set object_proto_names then None
      else Some (Inr (JObj (obj_set ps lastKey v))))"
| "assign_prop (JArr xs) lastKey v =
     (if is_numeric lastKey then Some (Inr (arr_put xs [] lastKey v)) else None)"
| "assign_prop (JArrN xs ps) lastKey v =
     (if is_numeric lastKey then Some (Inr (arr_put xs ps lastKey v)) else None)"
| "assign_prop current lastKey v = Some (Inl TypeError)"

text \<open>
  The loop of \<open>setNestedValue\<close> over the keys, as a descent that returns the
  updated node. A bare \<open>return\<close> leaves the node as it is; containers created
  on the way down stay in the tree. \<open>None\<close> marks what the model does not
  cover: an inherited name on an object, and a key that is not a numeric text on
  an array or on a primitive.
\<close>

fun setNested :: "jsval \<Rightarrow> string list \<Rightarrow> jsval \<Rightarrow> (js_error + jsval) option" where
  "setNested current [] v = None"
| "setNested current [lastKey] v = assign_prop current lastKey v"
| "setNested current (key # nextKey # ks) v =
     (if is_numeric key then
        (case array_parts current of
           None \<Rightarrow> Some (Inr current)
         | Some (xs, ps) \<Rightarrow>
             (case index_key (parseInt key) of
                None \<Rightarrow> None
              | Some k \<Rightarrow>
                  (let child = (if truthy (arr_get xs ps k) then arr_get xs ps k else JObj [])
                   in case setNested child (nextKey # ks) v of
                        Some (Inr c) \<Rightarrow> Some (Inr (arr_put xs ps k c))
                      | r \<Rightarrow> r)))
      else
        (case current of
           JObj ps \<Rightarrow>
             if key \<in> set object_proto_names then None
             else
               (let child = (if truthy (opt_field current key) then opt_field current key
                             else if is_numeric nextKey then JArr [] else JObj [])
                in case setNested child (nextKey # ks) v of
                     Some (Inr c) \<Rightarrow> Some (Inr (JObj (obj_set ps key c)))
                   | r \<Rightarrow> r)
         | JNull \<Rightarrow> Some (Inl TypeError)
         | JUndefined \<Rightarrow> Some (Inl TypeError)
         | _ \<Rightarrow> None))"

definition setNestedValue :: "jsval \<Rightarrow> string \<Rightarrow> jsval \<Rightarrow> (js_error + jsval) option" where
  "setNestedValue obj path v = setNested obj (split_dot path) v"

fun rebuild :: "cmi_row list \<Rightarrow> jsval \<Rightarrow> (js_error + jsval) option" where
  "rebuild [] cmi = Some (Inr cmi)"
| "rebuild (item # items) cmi =
     (case setNestedValue cmi (element item) (cmi_value item) of
        Some (Inr cmi') \<Rightarrow> rebuild items cmi'
      | r \<Rightarrow> r)"

text \<open>
  \<open>getCmiData(sessionId, element = null)\<close>: a truthy element selects the latest
  record of that path; otherwise the whole tree is rebuilt.
\<close>

definition getCmiData :: "db \<Rightarrow> string \<Rightarrow> string option \<Rightarrow> (js_error + jsval) option" where
  "getCmiData d sessionId el =
     (if truthy (case el of Some e \<Rightarrow> JStr e | None \<Rightarrow> JNull)
      then (case stmt_getCmiData d sessionId (case el of Some e \<Rightarrow> e | None \<Rightarrow> []) of
              Some row \<Rightarrow> Some (Inr (cmi_value row))
            | None \<Rightarrow> Some (Inr JNull))
      else rebuild (stmt_getAllCmiData d sessionId) (JObj []))"

subsection \<open>The round trip\<close>

text \<open>
  The scalar-to-string coercion the round-trip law speaks of: the same tree with
  every leaf replaced by its string form.
\<close>

fun coerce_value :: "js_env \<Rightarrow> jsval \<Rightarrow> jsval"
  and coerce_entries :: "js_env \<Rightarrow> (string \<times> jsval) list \<Rightarrow> (string \<times> jsval) list"
  and coerce_items :: "js_env \<Rightarrow> jsval list \<Rightarrow> jsval list"
where
  "coerce_value env (JObj ps) = JObj (coerce_entries env ps)"
| "coerce_value env (JArr xs) = JArr (coerce_items env xs)"
| "coerce_value env JUndefined = JStr (String_of env JUndefined)"
| "coerce_value env JNull = JStr (String_of env JNull)"
| "coerce_value env (JBool b) = JStr (String_of env (JBool b))"
| "coerce_value env (JNum n) = JStr (String_of env (JNum n))"
| "coerce_value env (JStr s) = JStr (String_of env (JStr s))"
| "coerce_entries env [] = []"
| "coerce_entries env ((k, v) # ps) = (k, coerce_value env v) # coerce_entries env ps"
| "coerce_items env [] = []"
| "coerce_items env (x # xs) = coerce_value env x # coerce_items env xs"
| "coerce_value env (JArrN xs ps) = JArrN (coerce_items env xs) (coerce_entries env ps)"

text \<open>
  The trees the codec carries faithfully. A key must not contain a dot, must not
  convert to a number, and must not be an inherited name. Objects and arrays are
  non-empty and keys are distinct; an array holds strings, numbers, booleans and
  such objects, but neither null nor arrays. Leaves are strings, numbers of any
  kind, booleans and null.
\<close>

definition safe_key :: "string \<Rightarrow> bool" where
  "safe_key k = (\<not> is_numeric k \<and> CHR ''.'' \<notin> set k \<and> k \<notin> set object_proto_names)"

fun safe_value :: "jsval \<Rightarrow> bool"
  and safe_entries :: "(string \<times> jsval) list \<Rightarrow> bool"
  and safe_items :: "jsval list \<Rightarrow> bool"
where
  "safe_value (JObj ps) = (ps \<noteq> [] \<and> distinct (map fst ps) \<and> safe_entries ps)"
| "safe_value (JArr xs) = (xs \<noteq> [] \<and> length xs < 4294967296 \<and> safe_items xs)"
| "safe_value JUndefined = False"
| "safe_value JNull = True"
| "safe_value (JBool b) = True"
| "safe_value (JNum n) = True"
| "safe_value (JStr s) = True"
| "safe_entries [] = True"
| "safe_entries ((k, v) # ps) = (safe_key k \<and> safe_value v \<and> safe_entries ps)"
| "safe_items [] = True"
| "safe_items (x # xs) =
     ((case x of JObj ps \<Rightarrow> safe_value x | JStr s \<Rightarrow> True | JNum n \<Rightarrow> True | JBool b \<Rightarrow> True
               | _ \<Rightarrow> False)
      \<and> safe_items xs)"
| "safe_value (JArrN xs ps) = False"

text \<open>
  The leaves of a tree with their key paths, in the order of the walk: the
  records of the flattening, before the keys are joined with dots.
\<close>

fun leaves_value :: "js_env \<Rightarrow> jsval \<Rightarrow> (string list \<times> string) list"
  and leaves_entries :: "js_env \<Rightarrow> (string \<times> jsval) list \<Rightarrow> (string list \<times> string) list"
  and leaves_items :: "js_env \<Rightarrow> jsval list \<Rightarrow> nat \<Rightarrow> (string list \<times> string) list"
where
  "leaves_value env (JObj ps) = leaves_entries env ps"
| "leaves_value env (JArr xs) = leaves_items env xs 0"
| "leaves_value env JUndefined = [([], String_of env JUndefined)]"
| "leaves_value env JNull = [([], String_of env JNull)]"
| "leaves_value env (JBool b) = [([], String_of env (JBool b))]"
| "leaves_value env (JNum n) = [([], String_of env (JNum n))]"
| "leaves_value env (JStr s) = [([], String_of env (JStr s))]"
| "leaves_entries env [] = []"
| "leaves_entries env ((k, v) # ps) =
     map (\<lambda>(ks, s). (k # ks, s)) (leaves_value env v) @ leaves_entries env ps"
| "leaves_items env [] i = []"
| "leaves_items env (x # xs) i =
     map (\<lambda>(ks, s). (dec i # ks, s)) (leaves_value env x) @ leaves_items env xs (Suc i)"
| "leaves_value env (JArrN xs ps) = leaves_items env xs 0 @ leaves_entries env ps"

text \<open>Applying records given by key paths, as \<open>getCmiData\<close> applies the stored ones.\<close>

fun apply_leaves :: "(string list \<times> string) list \<Rightarrow> jsval \<Rightarrow> (js_error + jsval) option" where
  "apply_leaves [] cmi = Some (Inr cmi)"
| "apply_leaves ((ks, s) # ws) cmi =
     (case setNested cmi ks (JStr s) of
        Some (Inr cmi') \<Rightarrow> apply_leaves ws cmi'
      | r \<Rightarrow> r)"

text \<open>
  A context \<open>ctx\<close> reached by the keys \<open>pre\<close>: setting a value below \<open>pre\<close> in
  \<open>ctx c\<close> is setting it in \<open>c\<close>.
\<close>

definition lift_result :: "(jsval \<Rightarrow> jsval) \<Rightarrow> (js_error + jsval) option \<Rightarrow> (js_error + jsval) option" where
  "lift_result ctx r = (case r of Some (Inr c) \<Rightarrow> Some (Inr (ctx c)) | _ \<Rightarrow> r)"

definition is_container :: "jsval \<Rightarrow> bool" where
  "is_container c = (case c of JObj ps \<Rightarrow> True | JArr xs \<Rightarrow> True | _ \<Rightarrow> False)"

definition transparent :: "string list \<Rightarrow> (jsval \<Rightarrow> jsval) \<Rightarrow> bool" where
  "transparent pre ctx =
     (\<forall>c k ks v. is_container c \<longrightarrow>
        setNested (ctx c) (pre @ k # ks) v = lift_result ctx (setNested c (k # ks) v))"

abbreviation prepend :: "string list \<Rightarrow> (string list \<times> string) list \<Rightarrow> (string list \<times> string) list" where
  "prepend pre ws \<equiv> map (\<lambda>(ks, s). (pre @ ks, s)) ws"

abbreviation split_paths :: "(string \<times> string) list \<Rightarrow> (string list \<times> string) list" where
  "split_paths ws \<equiv> map (\<lambda>(p, s). (split_dot p, s)) ws"

subsection \<open>Paths with an empty segment\<close>




subsection \<open>Interactions\<close>

text \<open>\<open>Object.values\<close>; on a string, its characters.\<close>

fun Object_values :: "jsval \<Rightarrow> js_error + jsval list" where
  "Object_values (JObj ps) = Inr (map snd ps)"
| "Object_values (JArr xs) = Inr (filter (\<lambda>x. x \<noteq> JUndefined) xs)"
| "Object_values (JArrN xs ps) = Inr (filter (\<lambda>x. x \<noteq> JUndefined) xs @ map snd ps)"
| "Object_values (JStr s) = Inr (map (\<lambda>c. JStr [c]) s)"
| "Object_values JNull = Inl TypeError"
| "Object_values JUndefined = Inl TypeError"
| "Object_values v = Inr []"

fun storeInteractions_loop :: "js_env \<Rightarrow> db \<Rightarrow> string \<Rightarrow> jsval list \<Rightarrow> js_error option \<times> db" where
  "storeInteractions_loop env d sessionId [] = (None, d)"
| "storeInteractions_loop env d sessionId (interaction # others) =
     (case dot_field interaction ''id'' of
        Inl e \<Rightarrow> (Some e, d)
      | Inr i \<Rightarrow>
          if \<not> truthy i then storeInteractions_loop env d sessionId others
          else
            (case stmt_insertInteraction d sessionId
                    [i,
                     js_or (opt_field interaction ''type'') JNull,
                     (if truthy (opt_field interaction ''timestamp'')
                      then Date_getTime env (opt_field interaction ''timestamp'') else JNull),
                     (if truthy (opt_field interaction ''correct_responses'')
                      then JStr (JSON_stringify env (opt_field interaction ''correct_responses''))
                      else JNull),
                     js_or (opt_field interaction ''learner_response'') JNull,
                     js_or (opt_field interaction ''result'') JNull,
                     js_or (opt_field interaction ''latency'') JNull,
                     js_or (opt_field interaction ''description'') JNull] of
               Inl e \<Rightarrow> (Some e, d)
             | Inr d' \<Rightarrow> storeInteractions_loop env d' sessionId others))"

definition storeInteractions :: "js_env \<Rightarrow> db \<Rightarrow> string \<Rightarrow> jsval \<Rightarrow> js_error option \<times> db" where
  "storeInteractions env d sessionId inters =
     (case (case inters of JArr xs \<Rightarrow> Inr xs | JArrN xs ps \<Rightarrow> Inr xs
            | _ \<Rightarrow> Object_values inters) of
        Inl e \<Rightarrow> (Some e, d)
      | Inr items \<Rightarrow> storeInteractions_loop env d sessionId items)"

subsection \<open>Commit and terminate\<close>

datatype commit_result = Committed string
datatype terminate_result = Terminated string

text \<open>
  The summary fields, each read from the newer shape, else from the older one,
  else null, with JavaScript's \<open>||\<close>.
\<close>

definition summary_field :: "jsval \<Rightarrow> jsval \<Rightarrow> jsval" where
  "summary_field newer older = js_or newer (js_or older JNull)"

definition successStatus_of :: "jsval \<Rightarrow> jsval" where
  "successStatus_of cmi =
     summary_field (opt_field cmi ''success_status'')
                   (opt_field (opt_field cmi ''core'') ''lesson_status'')"

definition scoreRaw_of :: "jsval \<Rightarrow> jsval" where
  "scoreRaw_of cmi =
     summary_field (opt_field (opt_field cmi ''score'') ''raw'')
                   (opt_field (opt_field (opt_field cmi ''core'') ''score'') ''raw'')"

definition sessionTime_of :: "jsval \<Rightarrow> jsval" where
  "sessionTime_of cmi =
     summary_field (opt_field cmi ''session_time'')
                   (opt_field (opt_field cmi ''core'') ''session_time'')"

definition totalTime_of :: "jsval \<Rightarrow> jsval" where
  "totalTime_of cmi =
     summary_field (opt_field cmi ''total_time'')
                   (opt_field (opt_field cmi ''core'') ''total_time'')"

definition suspendData_of :: "jsval \<Rightarrow> jsval" where
  "suspendData_of cmi =
     summary_field (opt_field cmi ''suspend_data'')
                   (opt_field (opt_field cmi ''core'') ''suspend_data'')"

text \<open>
  The body of the \<open>try\<close> block of \<open>commitSession\<close>. The statements run outside
  any transaction, so what was written before an exception stays written.
\<close>

definition commitSession_try ::
  "js_env \<Rightarrow> nat \<Rightarrow> db \<Rightarrow> string \<Rightarrow> jsval \<Rightarrow> (js_error + commit_result) \<times> db" where
  "commitSession_try env now d sessionId commitData =
     (case getSession d sessionId of
        None \<Rightarrow> (Inl SessionNotFound, d)
      | Some session \<Rightarrow>
          (case determineCompletion commitData of
             Inl e \<Rightarrow> (Inl e, d)
           | Inr isComplete \<Rightarrow>
               (let cmi = opt_field commitData ''cmi'' in
                case stmt_updateSession now d (if isComplete then 1 else 0)
                       (successStatus_of cmi) (scoreRaw_of cmi) (sessionTime_of cmi)
                       (totalTime_of cmi) (suspendData_of cmi) sessionId of
                  Inl e \<Rightarrow> (Inl e, d)
                | Inr d1 \<Rightarrow>
                    (case storeCmiData env now d1 sessionId (js_or cmi (JObj [])) ''cmi'' of
                       (Some e, d2) \<Rightarrow> (Inl e, d2)
                     | (None, d2) \<Rightarrow>
                         if truthy (opt_field cmi ''interactions'')
                         then (case storeInteractions env d2 sessionId (opt_field cmi ''interactions'') of
                                 (Some e, d3) \<Rightarrow> (Inl e, d3)
                               | (None, d3) \<Rightarrow> (Inr (Committed sessionId), d3))
                         else (Inr (Committed sessionId), d2)))))"

definition commitSession ::
  "js_env \<Rightarrow> nat \<Rightarrow> db \<Rightarrow> string \<Rightarrow> jsval \<Rightarrow> (js_error + commit_result) \<times> db" where
  "commitSession env now d sessionId commitData =
     (case commitSession_try env now d sessionId commitData of
        (Inl e, d') \<Rightarrow> (Inl (FailedTo ''commit session'' e), d')
      | (Inr r, d') \<Rightarrow> (Inr r, d'))"

text \<open>\<open>Object.keys(v).length\<close>; \<open>None\<close> when \<open>Object.keys\<close> throws.\<close>

fun Object_keys_length :: "jsval \<Rightarrow> nat option" where
  "Object_keys_length (JObj ps) = Some (length ps)"
| "Object_keys_length (JArr xs) = Some (length (filter (\<lambda>x. x \<noteq> JUndefined) xs))"
| "Object_keys_length (JArrN xs ps) = Some (length (filter (\<lambda>x. x \<noteq> JUndefined) xs) + length ps)"
| "Object_keys_length (JStr s) = Some (length s)"
| "Object_keys_length JNull = None"
| "Object_keys_length JUndefined = None"
| "Object_keys_length v = Some 0"

text \<open>\<open>terminateSession(sessionId, finalData = {})\<close>: undefined takes the default.\<close>

definition terminateSession ::
  "js_env \<Rightarrow> nat \<Rightarrow> db \<Rightarrow> string \<Rightarrow> jsval \<Rightarrow> (js_error + terminate_result) \<times> db" where
  "terminateSession env now d sessionId finalData0 =
     (let finalData = (if finalData0 = JUndefined then JObj [] else finalData0) in
      case Object_keys_length finalData of
        None \<Rightarrow> (Inl (FailedTo ''terminate session'' TypeError), d)
      | Some n \<Rightarrow>
          if n > 0
          then (case commitSession env now d sessionId finalData of
                  (Inl e, d') \<Rightarrow> (Inl (FailedTo ''terminate session'' e), d')
                | (Inr r, d') \<Rightarrow> (Inr (Terminated sessionId), d'))
          else (Inr (Terminated sessionId), d))"

subsection \<open>Sync queue\<close>

text \<open>
  \<open>createSyncItem\<close>: \<open>JSON.stringify\<close> gives a string for every JSON value and
  undefined for undefined.
\<close>

definition createSyncItem ::
  "js_env \<Rightarrow> nat \<Rightarrow> db \<Rightarrow> jsval \<Rightarrow> jsval \<Rightarrow> jsval \<Rightarrow> jsval \<Rightarrow> js_error + db" where
  "createSyncItem env now d sessionId packageId act dat =
     (case stmt_insertSyncItem now d sessionId packageId act
             (if dat = JUndefined then JUndefined else JStr (JSON_stringify env dat)) of
        Inl e \<Rightarrow> Inl (FailedTo ''create sync item'' e)
      | Inr d' \<Rightarrow> Inr d')"

definition getPendingSyncItems :: "db \<Rightarrow> nat \<Rightarrow> sync_item list" where
  "getPendingSyncItems d batchSize = stmt_getPendingSync d batchSize"

definition markSyncItemSynced :: "nat \<Rightarrow> db \<Rightarrow> nat \<Rightarrow> db" where
  "markSyncItemSynced now d syncItemId = stmt_markSynced now d syncItemId"

definition incrementSyncRetry :: "db \<Rightarrow> nat \<Rightarrow> db" where
  "incrementSyncRetry d syncItemId = stmt_incrementRetry d syncItemId"

section \<open>Offline sync service\<close>

record sync_config =
  batchSize :: nat
  maxRetries :: nat

definition config_sync :: sync_config where
  "config_sync = \<lparr>batchSize = 100, maxRetries = 3\<rparr>"

text \<open>
  The service object: the database it works on, its \<open>syncing\<close> flag, whether the
  timer is set, and the ids for which \<open>Max retries exceeded\<close> was logged.
\<close>

record service =
  database :: db
  syncing :: bool
  syncInterval :: "nat option"
  max_retries_log :: "nat list"

text \<open>
  \<open>syncCommit\<close>, \<open>syncInitialize\<close> and \<open>syncTerminate\<close> stand for the call to
  the external system; in the repository they log and succeed. The parameter
  \<open>lms\<close> gives the outcome of that call for action, session, package and data,
  \<open>True\<close> when it returns and \<open>False\<close> when it throws.
\<close>

type_synonym lms = "string \<Rightarrow> string \<Rightarrow> string \<Rightarrow> jsval \<Rightarrow> bool"

definition processSyncItem :: "js_env \<Rightarrow> lms \<Rightarrow> sync_item \<Rightarrow> bool" where
  "processSyncItem env sink item =
     (case JSON_parse env (String_of env (data item)) of
        None \<Rightarrow> False
      | Some dat \<Rightarrow>
          if action item = ''commit'' then sink ''commit'' (sync_session_id item) (sync_package_id item) dat
          else if action item = ''initialize'' then sink ''initialize'' (sync_session_id item) (sync_package_id item) dat
          else if action item = ''terminate'' then sink ''terminate'' (sync_session_id item) (sync_package_id item) dat
          else True)"

datatype sync_report = AlreadySyncing | NoItems | Completed nat nat nat

text \<open>The \<open>for\<close> loop of a pass over the fetched items, with its two counters.\<close>

fun process_items ::
  "js_env \<Rightarrow> lms \<Rightarrow> sync_config \<Rightarrow> nat \<Rightarrow> sync_item list \<Rightarrow> service \<Rightarrow> nat \<Rightarrow> nat
     \<Rightarrow> service \<times> nat \<times> nat" where
  "process_items env sink cfg now [] s successCount errorCount = (s, successCount, errorCount)"
| "process_items env sink cfg now (item # items) s successCount errorCount =
     (if processSyncItem env sink item
      then process_items env sink cfg now items
             (s\<lparr>database := markSyncItemSynced now (database s) (sync_id item)\<rparr>)
             (successCount + 1) errorCount
      else process_items env sink cfg now items
             (s\<lparr>database := incrementSyncRetry (database s) (sync_id item),
                max_retries_log :=
                  (if retry_count item \<ge> maxRetries cfg
                   then max_retries_log s @ [sync_id item] else max_retries_log s)\<rparr>)
             successCount (errorCount + 1))"

text \<open>One uninterrupted run of \<open>processSyncQueue\<close>.\<close>

definition processSyncQueue ::
  "js_env \<Rightarrow> lms \<Rightarrow> sync_config \<Rightarrow> nat \<Rightarrow> service \<Rightarrow> sync_report \<times> service" where
  "processSyncQueue env sink cfg now s =
     (if syncing s then (AlreadySyncing, s)
      else
        (let pendingItems = getPendingSyncItems (database s) (batchSize cfg) in
         if length pendingItems = 0 then (NoItems, s\<lparr>syncing := False\<rparr>)
         else
           (case process_items env sink cfg now pendingItems (s\<lparr>syncing := True\<rparr>) 0 0 of
              (s', successCount, errorCount) \<Rightarrow>
                (Completed successCount errorCount (length pendingItems),
                 s'\<lparr>syncing := False\<rparr>))))"

definition triggerSync ::
  "js_env \<Rightarrow> lms \<Rightarrow> sync_config \<Rightarrow> nat \<Rightarrow> service \<Rightarrow> sync_report \<times> service" where
  "triggerSync env sink cfg now s = processSyncQueue env sink cfg now s"

text \<open>
  \<open>for (const action of actions)\<close> iterates an array by its elements and a
  string by its characters; nothing else that JSON yields is iterable.
\<close>

fun iterate :: "jsval \<Rightarrow> js_error + jsval list" where
  "iterate (JArr xs) = Inr xs"
| "iterate (JArrN xs ps) = Inr xs"
| "iterate (JStr s) = Inr (map (\<lambda>c. JStr [c]) s)"
| "iterate v = Inl TypeError"

text \<open>
  The loop of \<open>uploadOfflineSession\<close>: one \<open>createSyncItem\<close> per action, with
  the action's \<open>type\<close> and \<open>data\<close>. An insert is not undone when a later one
  throws.
\<close>

fun createSyncItems ::
  "js_env \<Rightarrow> nat \<Rightarrow> db \<Rightarrow> jsval \<Rightarrow> jsval \<Rightarrow> jsval list \<Rightarrow> js_error option \<times> db" where
  "createSyncItems env now d sessionId packageId [] = (None, d)"
| "createSyncItems env now d sessionId packageId (act # actions) =
     (case dot_field act ''type'' of
        Inl e \<Rightarrow> (Some e, d)
      | Inr ty \<Rightarrow>
          (case createSyncItem env now d sessionId packageId ty (opt_field act ''data'') of
             Inl e \<Rightarrow> (Some e, d)
           | Inr d' \<Rightarrow> createSyncItems env now d' sessionId packageId actions))"

datatype upload_result = Queued

text \<open>
  \<open>uploadOfflineSession(offlineData)\<close>: the three fields are taken from the
  batch, the actions are enqueued, and \<open>processSyncQueue\<close> is called and awaited
  before the function returns.
\<close>

definition uploadOfflineSession ::
  "js_env \<Rightarrow> lms \<Rightarrow> sync_config \<Rightarrow> nat \<Rightarrow> service \<Rightarrow> jsval
     \<Rightarrow> (js_error + upload_result) \<times> service" where
  "uploadOfflineSession env sink cfg now s offlineData =
     (if nullish offlineData then (Inl (FailedTo ''upload offline session'' TypeError), s)
      else
        (case iterate (opt_field offlineData ''actions'') of
           Inl e \<Rightarrow> (Inl (FailedTo ''upload offline session'' e), s)
         | Inr actions \<Rightarrow>
             (case createSyncItems env now (database s)
                     (opt_field offlineData ''sessionId'') (opt_field offlineData ''packageId'')
                     actions of
                (Some e, d') \<Rightarrow>
                  (Inl (FailedTo ''upload offline session'' e), s\<lparr>database := d'\<rparr>)
              | (None, d') \<Rightarrow>
                  (Inr Queued, snd (processSyncQueue env sink cfg now (s\<lparr>database := d'\<rparr>))))))"

text \<open>
  The queue entries an upload makes of a list of actions: one per action, in
  order, each pending and without retries, carrying the session, the package, the
  action's type and its serialised data.
\<close>

definition entries_for ::
  "js_env \<Rightarrow> nat \<Rightarrow> string \<Rightarrow> string \<Rightarrow> jsval list \<Rightarrow> sync_item list \<Rightarrow> bool" where
  "entries_for env now sessionId packageId actions entries \<longleftrightarrow>
     length entries = length actions
   \<and> (\<forall>k < length actions.
         JStr (action (entries ! k)) = opt_field (actions ! k) ''type''
       \<and> data (entries ! k) =
           (if opt_field (actions ! k) ''data'' = JUndefined then JNull
            else JStr (JSON_stringify env (opt_field (actions ! k) ''data'')))
       \<and> sync_session_id (entries ! k) = sessionId \<and> sync_package_id (entries ! k) = packageId
       \<and> synced (entries ! k) = 0 \<and> synced_at (entries ! k) = None
       \<and> retry_count (entries ! k) = 0 \<and> created_at (entries ! k) = now)"

text \<open>
  \<open>getSyncStatus\<close>. The per-action counter is \<open>None\<close> where the model does not
  follow the code: an action named like an inherited property.
\<close>

record sync_status =
  pending :: nat
  status_syncing :: bool
  autoSyncEnabled :: bool
  byAction :: "(string \<rightharpoonup> nat) option"

fun count_byAction :: "sync_item list \<Rightarrow> (string \<rightharpoonup> nat) \<Rightarrow> (string \<rightharpoonup> nat) option" where
  "count_byAction [] m = Some m"
| "count_byAction (item # items) m =
     (if action item \<in> set object_proto_names then None
      else count_byAction items
             (m(action item \<mapsto> (case m (action item) of None \<Rightarrow> 0 | Some c \<Rightarrow> c) + 1)))"

definition getSyncStatus :: "service \<Rightarrow> sync_status" where
  "getSyncStatus s =
     (let pendingItems = getPendingSyncItems (database s) 1000 in
      \<lparr>pending = length pendingItems,
       status_syncing = syncing s,
       autoSyncEnabled = (syncInterval s \<noteq> None),
       byAction = count_byAction pendingItems Map.empty\<rparr>)"

text \<open>The number of entries still to be synchronised: the true depth of the queue.\<close>

definition queue_depth :: "db \<Rightarrow> nat" where
  "queue_depth d = length (filter (\<lambda>i. synced i = 0) (sync_queue d))"

text \<open>Repeated passes, as the timer makes them.\<close>

fun sync_passes :: "js_env \<Rightarrow> lms \<Rightarrow> sync_config \<Rightarrow> nat \<Rightarrow> nat \<Rightarrow> service \<Rightarrow> service" where
  "sync_passes env sink cfg now 0 s = s"
| "sync_passes env sink cfg now (Suc n) s =
     sync_passes env sink cfg now n (snd (processSyncQueue env sink cfg now s))"

subsection \<open>Interleaved execution\<close>

text \<open>
  \<open>processSyncQueue\<close> is an \<open>async\<close> function: it runs without interruption up
  to each \<open>await this.processSyncItem(item)\<close>, where other callers get their
  turn. The steps below are those uninterrupted stretches. A call either returns
  at once or starts a pass and suspends at the first item; a pass resumes when the
  awaited item settles, fulfilled or rejected, records the outcome and suspends at
  the next item or ends, clearing the flag in its \<open>finally\<close>. Uploads may add
  entries at any time. \<open>running\<close> holds the items still to be handled by each
  pass in flight; \<open>marked\<close> lists the ids passed to \<open>markSyncItemSynced\<close>.
\<close>

record conc =
  svc :: service
  running :: "sync_item list list"
  marked :: "nat list"

datatype event = Returned sync_report | Started | Settled bool | Enqueued

definition next_item :: "conc \<Rightarrow> sync_item list list \<Rightarrow> sync_item list \<Rightarrow> sync_item list list \<Rightarrow> conc" where
  "next_item c before items after =
     (if items = []
      then c\<lparr>svc := (svc c)\<lparr>syncing := False\<rparr>, running := before @ after\<rparr>
      else c\<lparr>running := before @ items # after\<rparr>)"

inductive step :: "js_env \<Rightarrow> sync_config \<Rightarrow> conc \<Rightarrow> event \<Rightarrow> conc \<Rightarrow> bool"
  for env :: js_env and cfg :: sync_config
where
  busy: "syncing (svc c) \<Longrightarrow> step env cfg c (Returned AlreadySyncing) c"
| no_items:
    "\<not> syncing (svc c) \<Longrightarrow>
     length (getPendingSyncItems (database (svc c)) (batchSize cfg)) = 0 \<Longrightarrow>
     step env cfg c (Returned NoItems) (c\<lparr>svc := (svc c)\<lparr>syncing := False\<rparr>\<rparr>)"
| start:
    "\<not> syncing (svc c) \<Longrightarrow>
     pendingItems = getPendingSyncItems (database (svc c)) (batchSize cfg) \<Longrightarrow>
     length pendingItems \<noteq> 0 \<Longrightarrow>
     step env cfg c Started
       (c\<lparr>svc := (svc c)\<lparr>syncing := True\<rparr>, running := running c @ [pendingItems]\<rparr>)"
| fulfilled:
    "running c = before @ (item # items) # after \<Longrightarrow>
     step env cfg c (Settled True)
       (next_item
          (c\<lparr>svc := (svc c)\<lparr>database := markSyncItemSynced now (database (svc c)) (sync_id item)\<rparr>,
             marked := marked c @ [sync_id item]\<rparr>)
          before items after)"
| rejected:
    "running c = before @ (item # items) # after \<Longrightarrow>
     step env cfg c (Settled False)
       (next_item
          (c\<lparr>svc := (svc c)\<lparr>database := incrementSyncRetry (database (svc c)) (sync_id item),
                            max_retries_log :=
                              (if retry_count item \<ge> maxRetries cfg
                               then max_retries_log (svc c) @ [sync_id item]
                               else max_retries_log (svc c))\<rparr>\<rparr>)
          before items after)"
| enqueue:
    "createSyncItem env now (database (svc c)) sessionId packageId act dat = Inr d' \<Longrightarrow>
     step env cfg c Enqueued (c\<lparr>svc := (svc c)\<lparr>database := d'\<rparr>\<rparr>)"

inductive reachable :: "js_env \<Rightarrow> sync_config \<Rightarrow> conc \<Rightarrow> conc \<Rightarrow> bool"
  for env :: js_env and cfg :: sync_config and c0 :: conc
where
  init: "reachable env cfg c0 c0"
| after: "reachable env cfg c0 c \<Longrightarrow> step env cfg c e c' \<Longrightarrow> reachable env cfg c0 c'"

text \<open>The invariant kept by every step.\<close>

definition queue_ids :: "conc \<Rightarrow> nat list" where
  "queue_ids c = map sync_id (sync_queue (database (svc c)))"

definition flight_inv :: "conc \<Rightarrow> bool" where
  "flight_inv c \<longleftrightarrow>
     distinct (queue_ids c)
   \<and> (syncing (svc c) \<longleftrightarrow> running c \<noteq> [])
   \<and> length (running c) \<le> 1
   \<and> distinct (marked c)
   \<and> set (marked c) \<subseteq> set (queue_ids c)
   \<and> (\<forall>q \<in> set (sync_queue (database (svc c))). sync_id q \<in> set (marked c) \<longrightarrow> synced q = 1)
   \<and> (\<forall>p \<in> set (running c). p \<noteq> [] \<and> distinct (map sync_id p)
          \<and> set (map sync_id p) \<subseteq> set (queue_ids c)
          \<and> (\<forall>x \<in> set p. sync_id x \<notin> set (marked c)))"

section \<open>Example inputs\<close>

text \<open>Concrete inputs on which the theorems below are evaluated.\<close>

definition stub_env :: js_env where
  "stub_env = \<lparr>Number_toString = (\<lambda>x. if x = 171 / 2 then ''85.5'' else ''1e+21''),
                JSON_stringify = (\<lambda>v. ''{}''), Date_getTime = (\<lambda>v. JNull),
                JSON_parse = (\<lambda>s. Some (JObj []))\<rparr>"

definition failing_lms :: lms where
  "failing_lms act sessionId packageId dat = False"

definition accepting_lms :: lms where
  "accepting_lms act sessionId packageId dat = True"

definition picky_lms :: lms where
  "picky_lms act sessionId packageId dat = (act \<noteq> ''terminate'')"

definition pending_entry :: "nat \<Rightarrow> sync_item" where
  "pending_entry n =
     \<lparr>sync_id = n, sync_session_id = ''s1'', sync_package_id = ''p1'', action = ''commit'',
      data = JStr ''{}'', created_at = 1, synced = 0, synced_at = None, retry_count = 0\<rparr>"

definition empty_db :: db where
  "empty_db = \<lparr>scorm_sessions = [], cmi_data = [], sync_queue = [], interactions = [],
                real_text = (\<lambda>x. if x = 171 / 2 then ''85.5'' else ''1.0e+15''),
                text_real = (\<lambda>s. if s = ''85.5'' then Some (171 / 2) else None)\<rparr>"

definition idle_service :: "sync_item list \<Rightarrow> service" where
  "idle_service q =
     \<lparr>database = empty_db\<lparr>sync_queue := q\<rparr>, syncing = False, syncInterval = None,
      max_retries_log = []\<rparr>"

definition busy_service :: "sync_item list \<Rightarrow> service" where
  "busy_service q = (idle_service q)\<lparr>syncing := True\<rparr>"

definition commit_batch :: jsval where
  "commit_batch =
     JObj [(''sessionId'', JStr ''s1''), (''packageId'', JStr ''p1''),
           (''actions'', JArr [JObj [(''type'', JStr ''commit''), (''data'', JObj [])]])]"

definition session_batch :: jsval where
  "session_batch =
     JObj [(''sessionId'', JStr ''s1''), (''packageId'', JStr ''p1''),
           (''actions'', JArr [JObj [(''type'', JStr ''initialize''), (''data'', JObj [])],
                               JObj [(''type'', JStr ''commit''), (''data'', JObj [])],
                               JObj [(''type'', JStr ''terminate''), (''data'', JObj [])]])]"

definition broken_batch :: jsval where
  "broken_batch =
     JObj [(''sessionId'', JStr ''s1''), (''packageId'', JStr ''p1''),
           (''actions'', JArr [JObj [(''type'', JStr ''commit''), (''data'', JObj [])],
                               JObj [(''data'', JObj [])]])]"

definition session_s1 :: session_row where
  "session_s1 =
     \<lparr>sess_id = ''s1'', sess_package_id = ''p1'', sess_user_id = JNull, started_at = 1,
      last_accessed = 1, completed = 0, success_status = JNull, score_raw = JNull,
      score_min = JNull, score_max = JNull, session_time = JNull, total_time = JNull,
      suspend_data = JNull\<rparr>"

definition conc_idle :: "sync_item list \<Rightarrow> conc" where
  "conc_idle q = \<lparr>svc = idle_service q, running = [], marked = []\<rparr>"

section \<open>Theorems\<close>

lemma opt_field_js_or_empty:
  "opt_field (js_or c (JObj [])) k = opt_field c k"
  by (cases c) (auto simp: js_or_def)

text \<open>
  C2 (as stated, refuted). The claim reads the derivation as a plain disjunction of
  the two shapes. A payload whose newer field says \<open>incomplete\<close> while the older
  field says \<open>passed\<close> satisfies the disjunction, yet the code derives
  \<open>completed = false\<close>: the newer field, once present, decides alone.
\<close>

theorem determineCompletion_or_counterexample:
  "determineCompletion
     (JObj [(''cmi'', JObj [(''completion_status'', JStr ''incomplete''),
                           (''core'', JObj [(''lesson_status'', JStr ''passed'')])])])
   \<noteq> Inr (completion_status_of
            (JObj [(''cmi'', JObj [(''completion_status'', JStr ''incomplete''),
                                  (''core'', JObj [(''lesson_status'', JStr ''passed'')])])])
            = JStr ''completed''
          \<or> lesson_status_of
            (JObj [(''cmi'', JObj [(''completion_status'', JStr ''incomplete''),
                                  (''core'', JObj [(''lesson_status'', JStr ''passed'')])])])
            = JStr ''completed''
          \<or> lesson_status_of
            (JObj [(''cmi'', JObj [(''completion_status'', JStr ''incomplete''),
                                  (''core'', JObj [(''lesson_status'', JStr ''passed'')])])])
            = JStr ''passed'')"
  by (simp add: determineCompletion_def dot_field_def js_or_def lesson_status_of_def
      completion_status_of_def)

text \<open>
  C2 (amended). For every commit payload other than null and undefined, the derived
  completion flag is true if and only if the newer field \<open>cmi.completion_status\<close>
  equals \<open>completed\<close>, or that field is absent or falsy and the older field
  \<open>cmi.core.lesson_status\<close> equals \<open>completed\<close> or \<open>passed\<close>. In particular
  the legacy commit \<open>{cmi: {core: {lesson_status: "passed"}}}\<close> derives true.
\<close>

theorem determineCompletion_prefers_newer:
  "\<not> nullish commitData \<Longrightarrow>
   determineCompletion commitData =
     Inr (completion_status_of commitData = JStr ''completed''
          \<or> (\<not> truthy (completion_status_of commitData)
              \<and> (lesson_status_of commitData = JStr ''completed''
                  \<or> lesson_status_of commitData = JStr ''passed'')))"
  by (auto simp: determineCompletion_def dot_field_def opt_field_js_or_empty
      completion_status_of_def lesson_status_of_def Let_def)

theorem determineCompletion_prefers_newer_witness:
  "\<not> nullish (JObj [(''cmi'', JObj [(''core'', JObj [(''lesson_status'', JStr ''passed'')])])])
   \<and> determineCompletion
       (JObj [(''cmi'', JObj [(''core'', JObj [(''lesson_status'', JStr ''passed'')])])])
     = Inr True"
  using determineCompletion_prefers_newer
    [of "JObj [(''cmi'', JObj [(''core'', JObj [(''lesson_status'', JStr ''passed'')])])]"]
  by (simp add: completion_status_of_def lesson_status_of_def)


subsection \<open>Session summary\<close>

lemma summary_field_falsy:
  "\<not> truthy newer \<Longrightarrow> summary_field newer older = (if truthy older then older else JNull)"
  by (simp add: summary_field_def js_or_def)

lemma bind_value_truthy:
  "bind_value v = Some w \<Longrightarrow> truthy v \<Longrightarrow> w = v"
  by (cases v) auto

lemma bind_from_value:
  "bind_value a = Some b \<Longrightarrow> length bound < n \<Longrightarrow>
   bind_from n named bound (a # args) = bind_from n named (bound @ [b]) args"
  by (cases a) (auto simp: bind_next_def)

lemma bind_args_update:
  assumes "bind_value st = Some st'" "bind_value sr = Some sr'" "bind_value stime = Some stime'"
      and "bind_value ttime = Some ttime'" "bind_value sd = Some sd'"
  shows "bind_args 7 [JNum c, st, sr, stime, ttime, sd, JStr sid]
           = Inr [JNum c, st', sr', stime', ttime', sd', JStr sid]"
proof -
  have "bind_from 7 False [] [JNum c, st, sr, stime, ttime, sd, JStr sid]
          = bind_from 7 False [JNum c] [st, sr, stime, ttime, sd, JStr sid]"
    by (simp add: bind_next_def)
  also have "\<dots> = bind_from 7 False [JNum c, st'] [sr, stime, ttime, sd, JStr sid]"
    using bind_from_value [OF assms(1), of "[JNum c]" 7] by simp
  also have "\<dots> = bind_from 7 False [JNum c, st', sr'] [stime, ttime, sd, JStr sid]"
    using bind_from_value [OF assms(2), of "[JNum c, st']" 7] by simp
  also have "\<dots> = bind_from 7 False [JNum c, st', sr', stime'] [ttime, sd, JStr sid]"
    using bind_from_value [OF assms(3), of "[JNum c, st', sr']" 7] by simp
  also have "\<dots> = bind_from 7 False [JNum c, st', sr', stime', ttime'] [sd, JStr sid]"
    using bind_from_value [OF assms(4), of "[JNum c, st', sr', stime']" 7] by simp
  also have "\<dots> = bind_from 7 False [JNum c, st', sr', stime', ttime', sd'] [JStr sid]"
    using bind_from_value [OF assms(5), of "[JNum c, st', sr', stime', ttime']" 7] by simp
  also have "\<dots> = Inr [JNum c, st', sr', stime', ttime', sd', JStr sid]"
    by (simp add: bind_next_def)
  finally show ?thesis by (simp add: bind_args_def)
qed

lemma find_map_update:
  assumes "\<And>x. P (f x) = P x"
  shows "find P (map f xs) = map_option f (find P xs)"
  using assms by (induction xs) auto

lemma setCmiData_all_sessions:
  "setCmiData_all now d sid ws = (r, d') \<Longrightarrow> scorm_sessions d' = scorm_sessions d"
proof (induction ws arbitrary: d)
  case Nil
  then show ?case by simp
next
  case (Cons w ws)
  obtain el v where w: "w = (el, v)" by (cases w)
  show ?case
  proof (cases "setCmiData now d sid el (JStr v)")
    case (Inl e)
    with Cons.prems w show ?thesis by simp
  next
    case (Inr d1)
    then have "scorm_sessions d1 = scorm_sessions d"
      by (auto simp: setCmiData_def stmt_insertCmiData_def split: sum.splits option.splits if_splits)
    moreover from Cons.prems w Inr have "setCmiData_all now d1 sid ws = (r, d')" by simp
    ultimately show ?thesis using Cons.IH by simp
  qed
qed

lemma storeCmiData_sessions:
  "storeCmiData env now d sid cmi prefix = (r, d') \<Longrightarrow> scorm_sessions d' = scorm_sessions d"
  by (auto simp: storeCmiData_def split: prod.splits option.splits dest: setCmiData_all_sessions)

lemma stmt_insertInteraction_sessions:
  "stmt_insertInteraction d sid vs = Inr d' \<Longrightarrow> scorm_sessions d' = scorm_sessions d"
  by (auto simp: stmt_insertInteraction_def split: sum.splits if_splits)

lemma storeInteractions_loop_sessions:
  "storeInteractions_loop env d sid xs = (r, d') \<Longrightarrow> scorm_sessions d' = scorm_sessions d"
proof (induction xs arbitrary: d)
  case Nil
  then show ?case by simp
next
  case (Cons x xs)
  then show ?case
    by (auto split: sum.splits if_splits dest: stmt_insertInteraction_sessions)
qed

lemma storeInteractions_sessions:
  "storeInteractions env d sid v = (r, d') \<Longrightarrow> scorm_sessions d' = scorm_sessions d"
  by (auto simp: storeInteractions_def split: sum.splits dest: storeInteractions_loop_sessions)

lemma determineCompletion_total:
  "\<not> nullish commitData \<Longrightarrow> \<exists>b. determineCompletion commitData = Inr b"
  by (auto simp: determineCompletion_def dot_field_def Let_def)

text \<open>Once the summary update has run, nothing later in the commit touches the sessions table.\<close>

lemma commitSession_sessions:
  assumes "getSession d sessionId = Some session"
      and "\<not> nullish commitData"
      and "stmt_updateSession now d (if b then 1 else 0)
             (successStatus_of (opt_field commitData ''cmi''))
             (scoreRaw_of (opt_field commitData ''cmi''))
             (sessionTime_of (opt_field commitData ''cmi''))
             (totalTime_of (opt_field commitData ''cmi''))
             (suspendData_of (opt_field commitData ''cmi'')) sessionId = Inr d1"
      and "determineCompletion commitData = Inr b"
  shows "scorm_sessions (snd (commitSession env now d sessionId commitData)) = scorm_sessions d1"
proof -
  obtain r2 d2 where s2: "storeCmiData env now d1 sessionId
      (js_or (opt_field commitData ''cmi'') (JObj [])) ''cmi'' = (r2, d2)"
    by (cases "storeCmiData env now d1 sessionId (js_or (opt_field commitData ''cmi'') (JObj [])) ''cmi''")
  then have e2: "scorm_sessions d2 = scorm_sessions d1"
    by (rule storeCmiData_sessions)
  obtain r3 d3 where s3: "storeInteractions env d2 sessionId
      (opt_field (opt_field commitData ''cmi'') ''interactions'') = (r3, d3)"
    by (cases "storeInteractions env d2 sessionId (opt_field (opt_field commitData ''cmi'') ''interactions'')")
  then have e3: "scorm_sessions d3 = scorm_sessions d2"
    by (rule storeInteractions_sessions)
  show ?thesis
    using assms s2 s3 e2 e3
    by (auto simp: commitSession_def commitSession_try_def Let_def split: option.splits)
qed

text \<open>
  C9. When the session exists and each of the five derived summary values is one
  the driver binds as a single parameter (a number, a string, null or undefined),
  the session row after \<open>commitSession\<close> holds, for each summary field whose
  newer-shape value is falsy (a score of 0, an empty string), what its column
  makes of the older-shape value if that one is truthy, and null otherwise; the
  given falsy value is not stored. The column \<open>score_raw\<close> is numeric and turns an
  older-shape text such as \<open>'70'\<close> into the number 70; the other three are TEXT
  columns and turn an older-shape number such as 5 into the text \<open>5.0\<close>. The
  update runs before the records are written, outside any transaction, so this
  holds whether or not the rest of the commit succeeds.
\<close>

theorem commitSession_falsy_newer_field:
  assumes sess: "getSession d sessionId = Some session"
      and nn: "\<not> nullish commitData"
      and cmi: "cmi = opt_field commitData ''cmi''"
      and b1: "bind_value (successStatus_of cmi) \<noteq> None"
      and b2: "bind_value (scoreRaw_of cmi) \<noteq> None"
      and b3: "bind_value (sessionTime_of cmi) \<noteq> None"
      and b4: "bind_value (totalTime_of cmi) \<noteq> None"
      and b5: "bind_value (suspendData_of cmi) \<noteq> None"
  shows "\<exists>row. getSession (snd (commitSession env now d sessionId commitData)) sessionId = Some row
      \<and> (\<not> truthy (opt_field (opt_field cmi ''score'') ''raw'') \<longrightarrow>
           score_raw row =
             numeric_affinity d
               (if truthy (opt_field (opt_field (opt_field cmi ''core'') ''score'') ''raw'')
                then opt_field (opt_field (opt_field cmi ''core'') ''score'') ''raw'' else JNull))
      \<and> (\<not> truthy (opt_field cmi ''session_time'') \<longrightarrow>
           session_time row =
             text_affinity d
               (if truthy (opt_field (opt_field cmi ''core'') ''session_time'')
                then opt_field (opt_field cmi ''core'') ''session_time'' else JNull))
      \<and> (\<not> truthy (opt_field cmi ''total_time'') \<longrightarrow>
           total_time row =
             text_affinity d
               (if truthy (opt_field (opt_field cmi ''core'') ''total_time'')
                then opt_field (opt_field cmi ''core'') ''total_time'' else JNull))
      \<and> (\<not> truthy (opt_field cmi ''suspend_data'') \<longrightarrow>
           suspend_data row =
             text_affinity d
               (if truthy (opt_field (opt_field cmi ''core'') ''suspend_data'')
                then opt_field (opt_field cmi ''core'') ''suspend_data'' else JNull))"
proof -
  obtain b where b: "determineCompletion commitData = Inr b"
    using determineCompletion_total [OF nn] by blast
  obtain st sr stime ttime sd where binds:
    "bind_value (successStatus_of cmi) = Some st" "bind_value (scoreRaw_of cmi) = Some sr"
    "bind_value (sessionTime_of cmi) = Some stime" "bind_value (totalTime_of cmi) = Some ttime"
    "bind_value (suspendData_of cmi) = Some sd"
    using b1 b2 b3 b4 b5 by auto
  define f where "f = (\<lambda>s::session_row. if sess_id s = sessionId
                           then s\<lparr>last_accessed := now,
                                  completed := (if b then 1 else 0),
                                  success_status := text_affinity d st,
                                  score_raw := numeric_affinity d sr,
                                  session_time := text_affinity d stime,
                                  total_time := text_affinity d ttime,
                                  suspend_data := text_affinity d sd\<rparr>
                           else s)"
  define d1 where "d1 = d\<lparr>scorm_sessions := map f (scorm_sessions d)\<rparr>"
  have upd: "stmt_updateSession now d (if b then 1 else 0)
             (successStatus_of (opt_field commitData ''cmi''))
             (scoreRaw_of (opt_field commitData ''cmi''))
             (sessionTime_of (opt_field commitData ''cmi''))
             (totalTime_of (opt_field commitData ''cmi''))
             (suspendData_of (opt_field commitData ''cmi'')) sessionId = Inr d1"
    using bind_args_update [OF binds, of "of_nat (if b then 1 else 0)" sessionId]
    by (simp add: stmt_updateSession_def cmi d1_def f_def)
  have tab: "scorm_sessions (snd (commitSession env now d sessionId commitData)) = map f (scorm_sessions d)"
    using commitSession_sessions [OF sess nn upd b] by (simp add: d1_def)
  have keep: "\<And>x. (sess_id (f x) = sessionId) = (sess_id x = sessionId)"
    by (simp add: f_def)
  have sid: "sess_id session = sessionId"
    using sess by (auto simp: getSession_def stmt_getSession_def find_Some_iff)
  have row: "getSession (snd (commitSession env now d sessionId commitData)) sessionId = Some (f session)"
    using sess tab find_map_update [of "\<lambda>s. sess_id s = sessionId" f, OF keep]
    by (simp add: getSession_def stmt_getSession_def)
  have fs: "score_raw (f session) = numeric_affinity d sr"
           "session_time (f session) = text_affinity d stime"
           "total_time (f session) = text_affinity d ttime"
           "suspend_data (f session) = text_affinity d sd"
    using sid by (simp_all add: f_def)
  have sr: "\<not> truthy (opt_field (opt_field cmi ''score'') ''raw'') \<Longrightarrow>
            sr = (if truthy (opt_field (opt_field (opt_field cmi ''core'') ''score'') ''raw'')
                  then opt_field (opt_field (opt_field cmi ''core'') ''score'') ''raw'' else JNull)"
    using binds(2) bind_value_truthy [of "opt_field (opt_field (opt_field cmi ''core'') ''score'') ''raw''" sr]
    by (auto simp: scoreRaw_of_def summary_field_falsy)
  have stime: "\<not> truthy (opt_field cmi ''session_time'') \<Longrightarrow>
            stime = (if truthy (opt_field (opt_field cmi ''core'') ''session_time'')
                  then opt_field (opt_field cmi ''core'') ''session_time'' else JNull)"
    using binds(3) bind_value_truthy [of "opt_field (opt_field cmi ''core'') ''session_time''" stime]
    by (auto simp: sessionTime_of_def summary_field_falsy)
  have ttime: "\<not> truthy (opt_field cmi ''total_time'') \<Longrightarrow>
            ttime = (if truthy (opt_field (opt_field cmi ''core'') ''total_time'')
                  then opt_field (opt_field cmi ''core'') ''total_time'' else JNull)"
    using binds(4) bind_value_truthy [of "opt_field (opt_field cmi ''core'') ''total_time''" ttime]
    by (auto simp: totalTime_of_def summary_field_falsy)
  have sd: "\<not> truthy (opt_field cmi ''suspend_data'') \<Longrightarrow>
            sd = (if truthy (opt_field (opt_field cmi ''core'') ''suspend_data'')
                  then opt_field (opt_field cmi ''core'') ''suspend_data'' else JNull)"
    using binds(5) bind_value_truthy [of "opt_field (opt_field cmi ''core'') ''suspend_data''" sd]
    by (auto simp: suspendData_of_def summary_field_falsy)
  show ?thesis
    using row fs sr stime ttime sd by simp
qed

theorem commitSession_falsy_newer_field_witness:
  "getSession (empty_db\<lparr>scorm_sessions := [session_s1]\<rparr>) ''s1'' = Some session_s1
   \<and> \<not> nullish (JObj [(''cmi'', JObj [(''score'', JObj [(''raw'', JNum 0)])])])
   \<and> \<not> truthy (opt_field (opt_field (JObj [(''score'', JObj [(''raw'', JNum 0)])]) ''score'') ''raw'')
   \<and> (\<exists>row. getSession
               (snd (commitSession stub_env 9 (empty_db\<lparr>scorm_sessions := [session_s1]\<rparr>) ''s1''
                       (JObj [(''cmi'', JObj [(''score'', JObj [(''raw'', JNum 0)])])])))
               ''s1'' = Some row
             \<and> score_raw row = JNull)
   \<and> (\<exists>row. getSession
               (snd (commitSession stub_env 9 (empty_db\<lparr>scorm_sessions := [session_s1]\<rparr>) ''s1''
                       (JObj [(''cmi'',
                          JObj [(''score'', JObj [(''raw'', JNum 0)]),
                                (''session_time'', JStr []),
                                (''core'', JObj [(''score'', JObj [(''raw'', JStr ''70'')]),
                                                 (''session_time'', JNum 5)])])])))
               ''s1'' = Some row
             \<and> score_raw row = JNum 70 \<and> session_time row = JStr ''5.0'')"
  using commitSession_falsy_newer_field
    [of "empty_db\<lparr>scorm_sessions := [session_s1]\<rparr>" "''s1''" session_s1
        "JObj [(''cmi'', JObj [(''score'', JObj [(''raw'', JNum 0)])])]"
        "JObj [(''score'', JObj [(''raw'', JNum 0)])]" stub_env 9]
    commitSession_falsy_newer_field
    [of "empty_db\<lparr>scorm_sessions := [session_s1]\<rparr>" "''s1''" session_s1
        "JObj [(''cmi'',
           JObj [(''score'', JObj [(''raw'', JNum 0)]),
                 (''session_time'', JStr []),
                 (''core'', JObj [(''score'', JObj [(''raw'', JStr ''70'')]),
                                  (''session_time'', JNum 5)])])]"
        "JObj [(''score'', JObj [(''raw'', JNum 0)]),
               (''session_time'', JStr []),
               (''core'', JObj [(''score'', JObj [(''raw'', JStr ''70'')]),
                                (''session_time'', JNum 5)])]" stub_env 9]
  by (auto simp add: getSession_def stmt_getSession_def successStatus_of_def scoreRaw_of_def
      sessionTime_of_def totalTime_of_def suspendData_of_def summary_field_def js_or_def
      empty_db_def session_s1_def num_of_text_def is_digit_def digits_val_def digit_val_def
      text_of_num_def int_digits_def dec.simps [of 5] digit_char_def)

text \<open>
  C10. Terminating with the empty payload succeeds for every session id, whether
  or not a session with that id exists, and leaves the database as it was: no
  terminated state is recorded. With a non-empty object payload and an unknown
  session id, terminate fails through the session lookup of the embedded commit;
  and whenever terminate fails on an object payload, the payload is non-empty and
  the failure is that of the embedded commit.
\<close>

theorem terminateSession_empty_payload:
  "terminateSession env now d sessionId (JObj []) = (Inr (Terminated sessionId), d)
   \<and> (getSession d sessionId = None \<and> ps \<noteq> [] \<longrightarrow>
        terminateSession env now d sessionId (JObj ps)
          = (Inl (FailedTo ''terminate session'' (FailedTo ''commit session'' SessionNotFound)), d))
   \<and> (\<forall>e. fst (terminateSession env now d sessionId (JObj ps)) = Inl e \<longrightarrow>
         ps \<noteq> [] \<and> (\<exists>e'. e = FailedTo ''terminate session'' (FailedTo ''commit session'' e')))"
  by (auto simp: terminateSession_def commitSession_def commitSession_try_def
      split: prod.splits sum.splits option.splits)

theorem terminateSession_empty_payload_witness:
  "getSession empty_db ''no-such-session'' = None
   \<and> terminateSession stub_env 7 empty_db ''no-such-session'' (JObj [])
        = (Inr (Terminated ''no-such-session''), empty_db)
   \<and> terminateSession stub_env 7 empty_db ''no-such-session'' (JObj [(''cmi'', JObj [])])
        = (Inl (FailedTo ''terminate session'' (FailedTo ''commit session'' SessionNotFound)),
           empty_db)"
  using terminateSession_empty_payload
    [of stub_env 7 empty_db "''no-such-session''" "[(''cmi'', JObj [])]"]
  by (simp add: getSession_def stmt_getSession_def empty_db_def)

subsection \<open>Record store\<close>

lemma sorted_wrt_less_sorted:
  fixes xs :: "nat list"
  shows "sorted_wrt (<) xs \<Longrightarrow> sorted xs"
  by (induction xs) (auto simp: less_imp_le)

lemma insort_key_last:
  fixes f :: "'a \<Rightarrow> nat"
  shows "\<forall>y \<in> set acc. f y < f x \<Longrightarrow> insort_key f x acc = acc @ [x]"
  by (induction acc) auto

lemma foldr_insort_increasing:
  fixes f :: "'a \<Rightarrow> nat"
  shows "sorted_wrt (<) (map f (acc @ xs)) \<Longrightarrow> foldr (insort_key f) (rev xs) acc = acc @ xs"
proof (induction xs arbitrary: acc)
  case Nil
  then show ?case by simp
next
  case (Cons x xs)
  have "\<forall>y \<in> set acc. f y < f x"
    using Cons.prems by (auto simp: sorted_wrt_append)
  then have i: "insort_key f x acc = acc @ [x]" by (rule insort_key_last)
  have "sorted_wrt (<) (map f ((acc @ [x]) @ xs))" using Cons.prems by simp
  then have "foldr (insort_key f) (rev xs) (acc @ [x]) = (acc @ [x]) @ xs" by (rule Cons.IH)
  then show ?case using i by simp
qed

text \<open>Rows written with strictly increasing timestamps come back in that order.\<close>

lemma sort_key_rev_increasing:
  fixes f :: "'a \<Rightarrow> nat"
  assumes "sorted_wrt (<) (map f xs)"
  shows "sort_key f (rev xs) = xs"
  using foldr_insort_increasing [of f "[]" xs] assms by (simp add: sort_key_def)

text \<open>
  C5 (as stated, refuted). The claim covers every path. The empty path is a path
  like any other for the store (the write below succeeds), but \<open>getCmiData\<close>
  tests its element argument for truthiness, takes the empty string for an absent
  argument, and returns the rebuilt tree instead of the value written.
\<close>

theorem getCmiData_empty_path_counterexample:
  "setCmiData 5 (empty_db\<lparr>scorm_sessions := [session_s1]\<rparr>) ''s1'' [] (JStr ''x'')
     = Inr (empty_db\<lparr>scorm_sessions := [session_s1],
                     cmi_data := [\<lparr>cmi_id = 1, cmi_session_id = ''s1'', element = [],
                                   cmi_value = JStr ''x'', cmi_timestamp = 5\<rparr>]\<rparr>)
   \<and> getCmiData
       (empty_db\<lparr>scorm_sessions := [session_s1],
                 cmi_data := [\<lparr>cmi_id = 1, cmi_session_id = ''s1'', element = [],
                               cmi_value = JStr ''x'', cmi_timestamp = 5\<rparr>]\<rparr>)
       ''s1'' (Some [])
     \<noteq> Some (Inr (JStr ''x''))"
  by (simp add: setCmiData_def stmt_insertCmiData_def stmt_getSession_def empty_db_def
      session_s1_def next_id_def getCmiData_def stmt_getAllCmiData_def setNestedValue_def
      object_proto_names_def obj_set_def array_index_def bind_args_def bind_next_def)

text \<open>
  C5 (amended). For every session and every non-empty path whose records carry
  strictly increasing timestamps in the order they were written, the
  single-element \<open>getCmiData\<close> returns the value of the last write, and null when
  the path has no record.
\<close>

theorem getCmiData_latest:
  assumes "el \<noteq> []"
      and "sorted_wrt (<) (map cmi_timestamp
             (filter (\<lambda>r. cmi_session_id r = sessionId \<and> element r = el) (cmi_data d)))"
  shows "getCmiData d sessionId (Some el) =
           Some (Inr (case filter (\<lambda>r. cmi_session_id r = sessionId \<and> element r = el) (cmi_data d)
                      of [] \<Rightarrow> JNull | r # rs \<Rightarrow> cmi_value (last (r # rs))))"
proof -
  let ?rs = "filter (\<lambda>r. cmi_session_id r = sessionId \<and> element r = el) (cmi_data d)"
  have s: "sort_key cmi_timestamp (rev ?rs) = ?rs"
    using assms(2) by (rule sort_key_rev_increasing)
  show ?thesis
  proof (cases ?rs)
    case Nil
    then show ?thesis using assms(1) s by (simp add: getCmiData_def stmt_getCmiData_def)
  next
    case (Cons r rs)
    then have "rev ?rs = last (r # rs) # rev (butlast (r # rs))"
      by (metis append_butlast_last_id list.distinct(1) rev.simps(2) rev_swap)
    then show ?thesis using assms(1) s Cons
      by (simp add: getCmiData_def stmt_getCmiData_def)
  qed
qed

theorem getCmiData_latest_witness:
  "''cmi.score.raw'' \<noteq> []
   \<and> getCmiData
       (empty_db\<lparr>scorm_sessions := [session_s1],
                 cmi_data :=
                   [\<lparr>cmi_id = 1, cmi_session_id = ''s1'', element = ''cmi.score.raw'',
                     cmi_value = JStr ''40'', cmi_timestamp = 10\<rparr>,
                    \<lparr>cmi_id = 2, cmi_session_id = ''s1'', element = ''cmi.location'',
                     cmi_value = JStr ''p3'', cmi_timestamp = 11\<rparr>,
                    \<lparr>cmi_id = 3, cmi_session_id = ''s1'', element = ''cmi.score.raw'',
                     cmi_value = JStr ''85'', cmi_timestamp = 12\<rparr>]\<rparr>)
       ''s1'' (Some ''cmi.score.raw'')
     = Some (Inr (JStr ''85''))"
  using getCmiData_latest
    [of "''cmi.score.raw''" "''s1''"
        "empty_db\<lparr>scorm_sessions := [session_s1],
                 cmi_data :=
                   [\<lparr>cmi_id = 1, cmi_session_id = ''s1'', element = ''cmi.score.raw'',
                     cmi_value = JStr ''40'', cmi_timestamp = 10\<rparr>,
                    \<lparr>cmi_id = 2, cmi_session_id = ''s1'', element = ''cmi.location'',
                     cmi_value = JStr ''p3'', cmi_timestamp = 11\<rparr>,
                    \<lparr>cmi_id = 3, cmi_session_id = ''s1'', element = ''cmi.score.raw'',
                     cmi_value = JStr ''85'', cmi_timestamp = 12\<rparr>]\<rparr>"]
  by (simp add: empty_db_def)

subsection \<open>Malformed paths\<close>

lemma split_dot_nonempty: "split_dot s \<noteq> []"
  by (induction s) (auto split: list.splits)

lemma split_dot_nodot: "CHR ''.'' \<notin> set k \<Longrightarrow> split_dot k = [k]"
  by (induction k) auto

lemma split_dot_dot: "split_dot (a @ CHR ''.'' # b) = split_dot a @ split_dot b"
proof (induction a)
  case Nil
  show ?case by simp
next
  case (Cons c a)
  obtain k ks where "split_dot a = k # ks"
    using split_dot_nonempty [of a] by (cases "split_dot a") auto
  then show ?case using Cons by (auto split: list.splits)
qed












subsection \<open>Sync status\<close>

lemma count_byAction_tally:
  "\<forall>i \<in> set items. action i \<notin> set object_proto_names \<Longrightarrow>
   count_byAction items m =
     Some (\<lambda>a. case m a of
                  None \<Rightarrow> (if filter (\<lambda>i. action i = a) items = [] then None
                             else Some (length (filter (\<lambda>i. action i = a) items)))
                | Some c \<Rightarrow> Some (c + length (filter (\<lambda>i. action i = a) items)))"
proof (induction items arbitrary: m)
  case Nil
  show ?case by (auto split: option.splits)
next
  case (Cons i items)
  then show ?case
    by (auto simp: fun_eq_iff split: option.splits)
qed

text \<open>
  C6 (as stated, refuted). The status query fetches the pending entries with a
  limit of 1000. With 1001 pending entries in the queue it reports 1000.
\<close>

theorem getSyncStatus_depth_counterexample:
  "pending (getSyncStatus (idle_service (map pending_entry [1..<1002])))
     \<noteq> queue_depth (database (idle_service (map pending_entry [1..<1002])))"
  by (simp add: getSyncStatus_def Let_def getPendingSyncItems_def stmt_getPendingSync_def
      queue_depth_def idle_service_def empty_db_def filter_map comp_def pending_entry_def)

text \<open>
  C6 (amended). The pending count of the status query is the number of entries with
  \<open>synced = 0\<close>, capped at 1000; the per-action counts are taken over the same
  (at most 1000, oldest first) entries; and the \<open>syncing\<close> flag of the service is
  reported as it is.
\<close>

theorem getSyncStatus_capped:
  "pending (getSyncStatus s) = min 1000 (queue_depth (database s))
   \<and> status_syncing (getSyncStatus s) = syncing s
   \<and> ((\<forall>i \<in> set (getPendingSyncItems (database s) 1000). action i \<notin> set object_proto_names) \<longrightarrow>
        byAction (getSyncStatus s) =
          Some (\<lambda>a. if filter (\<lambda>i. action i = a) (getPendingSyncItems (database s) 1000) = [] then None
                     else Some (length (filter (\<lambda>i. action i = a)
                                          (getPendingSyncItems (database s) 1000)))))"
proof -
  let ?items = "getPendingSyncItems (database s) 1000"
  have len: "length ?items = min 1000 (queue_depth (database s))"
    by (simp add: getPendingSyncItems_def stmt_getPendingSync_def queue_depth_def min.commute)
  have p: "pending (getSyncStatus s) = length ?items"
    and f: "status_syncing (getSyncStatus s) = syncing s"
    and b: "byAction (getSyncStatus s) = count_byAction ?items Map.empty"
    by (simp_all add: getSyncStatus_def Let_def)
  show ?thesis
    using len p f b count_byAction_tally [of ?items Map.empty] by simp
qed

theorem getSyncStatus_capped_witness:
  "pending (getSyncStatus (idle_service [pending_entry 1, pending_entry 2])) = 2
   \<and> status_syncing (getSyncStatus (idle_service [pending_entry 1, pending_entry 2])) = False
   \<and> byAction (getSyncStatus (idle_service [pending_entry 1, pending_entry 2])) = Some [''commit'' \<mapsto> 2]"
  using getSyncStatus_capped [of "idle_service [pending_entry 1, pending_entry 2]"]
  by (auto simp add: idle_service_def pending_entry_def empty_db_def getPendingSyncItems_def
      stmt_getPendingSync_def queue_depth_def object_proto_names_def fun_eq_iff)

subsection \<open>Retries\<close>

lemma failing_pass:
  "\<not> syncing s \<Longrightarrow> sync_queue (database s) = [(pending_entry 1)\<lparr>retry_count := k\<rparr>] \<Longrightarrow>
   fst (processSyncQueue stub_env failing_lms cfg now s) = (if batchSize cfg = 0 then NoItems else Completed 0 1 1)
   \<and> \<not> syncing (snd (processSyncQueue stub_env failing_lms cfg now s))
   \<and> sync_queue (database (snd (processSyncQueue stub_env failing_lms cfg now s)))
       = [(pending_entry 1)\<lparr>retry_count := (if batchSize cfg = 0 then k else Suc k)\<rparr>]"
  by (cases "batchSize cfg")
     (simp_all add: processSyncQueue_def getPendingSyncItems_def stmt_getPendingSync_def
      pending_entry_def processSyncItem_def stub_env_def failing_lms_def
      incrementSyncRetry_def stmt_incrementRetry_def Let_def)

lemma failing_passes:
  "\<not> syncing s \<Longrightarrow> sync_queue (database s) = [(pending_entry 1)\<lparr>retry_count := k\<rparr>] \<Longrightarrow>
   \<not> syncing (sync_passes stub_env failing_lms config_sync now n s)
   \<and> sync_queue (database (sync_passes stub_env failing_lms config_sync now n s))
       = [(pending_entry 1)\<lparr>retry_count := k + n\<rparr>]"
proof (induction n arbitrary: s k)
  case 0
  then show ?case by simp
next
  case (Suc n)
  have b: "batchSize config_sync \<noteq> 0" by (simp add: config_sync_def)
  from failing_pass [OF Suc.prems, of config_sync now] b
  have 1: "\<not> syncing (snd (processSyncQueue stub_env failing_lms config_sync now s))"
    and 2: "sync_queue (database (snd (processSyncQueue stub_env failing_lms config_sync now s)))
       = [(pending_entry 1)\<lparr>retry_count := Suc k\<rparr>]"
    by simp_all
  from Suc.IH [OF 1 2] show ?case by simp
qed

text \<open>
  C3 (code defect). The queue holds one entry whose processing always fails, and
  the configured maximum is 3. After \<open>n\<close> passes, for every \<open>n\<close>, the entry's retry
  count is \<open>n\<close>, it is still pending, and the next pass attempts it again (one
  item fetched, one error): the count passes the maximum, and the retries never
  stop. The pass compares the count with \<open>maxRetries\<close> only to log a message.
\<close>

theorem processSyncQueue_retries_unbounded:
  "map retry_count
     (sync_queue (database (sync_passes stub_env failing_lms config_sync now n
                              (idle_service [pending_entry 1])))) = [n]
   \<and> map synced
     (sync_queue (database (sync_passes stub_env failing_lms config_sync now n
                              (idle_service [pending_entry 1])))) = [0]
   \<and> fst (processSyncQueue stub_env failing_lms config_sync now
            (sync_passes stub_env failing_lms config_sync now n (idle_service [pending_entry 1])))
     = Completed 0 1 1"
proof -
  have i: "\<not> syncing (idle_service [pending_entry 1])"
    and q: "sync_queue (database (idle_service [pending_entry 1])) = [(pending_entry 1)\<lparr>retry_count := 0\<rparr>]"
    by (simp_all add: idle_service_def pending_entry_def)
  from failing_passes [OF i q, of now n]
  have 1: "\<not> syncing (sync_passes stub_env failing_lms config_sync now n (idle_service [pending_entry 1]))"
    and 2: "sync_queue (database (sync_passes stub_env failing_lms config_sync now n (idle_service [pending_entry 1])))
       = [(pending_entry 1)\<lparr>retry_count := n\<rparr>]"
    by simp_all
  have b: "batchSize config_sync \<noteq> 0" by (simp add: config_sync_def)
  from failing_pass [OF 1 2, of config_sync now] b 2 show ?thesis
    by (simp add: pending_entry_def)
qed

subsection \<open>Single flight\<close>

lemma fold_max_ge: "(m::nat) \<le> fold max xs m \<and> (\<forall>x \<in> set xs. x \<le> fold max xs m)"
proof (induction xs arbitrary: m)
  case Nil
  show ?case by simp
next
  case (Cons a xs)
  have "max a m \<le> fold max xs (max a m)" and "\<forall>x \<in> set xs. x \<le> fold max xs (max a m)"
    using Cons.IH [of "max a m"] by simp_all
  then show ?case by simp
qed

lemma next_id_fresh: "next_id ids \<notin> set ids"
  using fold_max_ge [of 0 ids] by (auto simp: next_id_def)

lemma pending_props:
  assumes "distinct (map sync_id (sync_queue d))"
  shows "distinct (map sync_id (getPendingSyncItems d n))"
    and "set (getPendingSyncItems d n) \<subseteq> {q \<in> set (sync_queue d). synced q = 0}"
proof -
  let ?f = "filter (\<lambda>i. synced i = 0) (sync_queue d)"
  have "distinct (map sync_id ?f)"
    using assms by (simp add: distinct_map_filter)
  then have "distinct (map sync_id (sort_key created_at ?f))"
    by (simp add: distinct_map)
  then show "distinct (map sync_id (getPendingSyncItems d n))"
    by (simp add: getPendingSyncItems_def stmt_getPendingSync_def take_map [symmetric] distinct_take)
  show "set (getPendingSyncItems d n) \<subseteq> {q \<in> set (sync_queue d). synced q = 0}"
    using set_take_subset [of n "sort_key created_at ?f"]
    by (auto simp: getPendingSyncItems_def stmt_getPendingSync_def)
qed


lemma ids_markSynced [simp]:
  "map sync_id (sync_queue (markSyncItemSynced now d i)) = map sync_id (sync_queue d)"
  by (simp add: markSyncItemSynced_def stmt_markSynced_def comp_def)

lemma ids_incrementRetry [simp]:
  "map sync_id (sync_queue (incrementSyncRetry d i)) = map sync_id (sync_queue d)"
  by (simp add: incrementSyncRetry_def stmt_incrementRetry_def comp_def)

lemma idset_markSynced [simp]:
  "sync_id ` set (sync_queue (markSyncItemSynced now d i)) = sync_id ` set (sync_queue d)"
  using ids_markSynced [of now d i] by (metis set_map)

lemma idset_incrementRetry [simp]:
  "sync_id ` set (sync_queue (incrementSyncRetry d i)) = sync_id ` set (sync_queue d)"
  using ids_incrementRetry [of d i] by (metis set_map)

lemma synced_markSynced:
  "q \<in> set (sync_queue (markSyncItemSynced now d i)) \<Longrightarrow>
   (sync_id q = i \<longrightarrow> synced q = 1)
   \<and> (\<exists>q0 \<in> set (sync_queue d). sync_id q0 = sync_id q \<and> (sync_id q \<noteq> i \<longrightarrow> synced q = synced q0))"
  by (auto simp: markSyncItemSynced_def stmt_markSynced_def)

lemma synced_incrementRetry:
  "q \<in> set (sync_queue (incrementSyncRetry d i)) \<Longrightarrow>
   \<exists>q0 \<in> set (sync_queue d). sync_id q0 = sync_id q \<and> synced q = synced q0"
  by (auto simp: incrementSyncRetry_def stmt_incrementRetry_def)

lemma inv_start:
  assumes "flight_inv c" and "\<not> syncing (svc c)"
      and "getPendingSyncItems (database (svc c)) (batchSize cfg) \<noteq> []"
  shows "flight_inv (c\<lparr>svc := (svc c)\<lparr>syncing := True\<rparr>,
                running := running c @ [getPendingSyncItems (database (svc c)) (batchSize cfg)]\<rparr>)"
proof -
  define pendingItems where "pendingItems = getPendingSyncItems (database (svc c)) (batchSize cfg)"
  have d: "distinct (map sync_id (sync_queue (database (svc c))))"
    using assms(1) by (simp add: flight_inv_def queue_ids_def)
  have r: "running c = []" using assms(1,2) by (simp add: flight_inv_def)
  have 1: "distinct (map sync_id pendingItems)"
    and 2: "set pendingItems \<subseteq> {q \<in> set (sync_queue (database (svc c))). synced q = 0}"
    using pending_props [OF d] by (simp_all add: pendingItems_def)
  have 3: "\<forall>x \<in> set pendingItems. sync_id x \<notin> set (marked c)"
    using 2 assms(1) by (auto simp: flight_inv_def)
  have 4: "set (map sync_id pendingItems) \<subseteq> set (queue_ids c)"
    using 2 by (auto simp: queue_ids_def)
  have 5: "pendingItems \<noteq> []" using assms(3) by (simp add: pendingItems_def)
  have "flight_inv (c\<lparr>svc := (svc c)\<lparr>syncing := True\<rparr>, running := running c @ [pendingItems]\<rparr>)"
    using assms(1) r 1 3 4 5 by (simp add: flight_inv_def queue_ids_def)
  then show ?thesis by (simp add: pendingItems_def)
qed

lemma inv_single:
  assumes "flight_inv c" and "running c = before @ (item # items) # after"
  shows "before = []" and "after = []" and "syncing (svc c)"
    and "distinct (map sync_id items)" and "sync_id item \<notin> set (map sync_id items)"
    and "sync_id item \<in> set (queue_ids c)" and "set (map sync_id items) \<subseteq> set (queue_ids c)"
    and "sync_id item \<notin> set (marked c)" and "\<forall>x \<in> set items. sync_id x \<notin> set (marked c)"
proof -
  show ba: "before = []" "after = []"
    using assms by (auto simp: flight_inv_def)
  then have run: "running c = [item # items]" using assms(2) by simp
  then show "syncing (svc c)" using assms(1) by (simp add: flight_inv_def)
  have p: "distinct (map sync_id (item # items))"
        "set (map sync_id (item # items)) \<subseteq> set (queue_ids c)"
        "\<forall>x \<in> set (item # items). sync_id x \<notin> set (marked c)"
    using assms(1) run by (simp_all add: flight_inv_def)
  from p(1) show "distinct (map sync_id items)" "sync_id item \<notin> set (map sync_id items)"
    by simp_all
  from p(2) show "sync_id item \<in> set (queue_ids c)" "set (map sync_id items) \<subseteq> set (queue_ids c)"
    by simp_all
  from p(3) show "sync_id item \<notin> set (marked c)" "\<forall>x \<in> set items. sync_id x \<notin> set (marked c)"
    by simp_all
qed

lemma inv_fulfilled:
  assumes "flight_inv c" and "running c = before @ (item # items) # after"
  shows "flight_inv (next_item
          (c\<lparr>svc := (svc c)\<lparr>database := markSyncItemSynced now (database (svc c)) (sync_id item)\<rparr>,
             marked := marked c @ [sync_id item]\<rparr>)
          before items after)"
proof -
  note s = inv_single [OF assms]
  have m: "distinct (marked c)" "set (marked c) \<subseteq> set (queue_ids c)"
      "\<forall>q \<in> set (sync_queue (database (svc c))). sync_id q \<in> set (marked c) \<longrightarrow> synced q = 1"
      "distinct (queue_ids c)"
    using assms(1) by (simp_all add: flight_inv_def)
  let ?d = "markSyncItemSynced now (database (svc c)) (sync_id item)"
  have ids: "map sync_id (sync_queue ?d) = queue_ids c"
    by (simp add: queue_ids_def)
  have six: "\<forall>q \<in> set (sync_queue ?d). sync_id q \<in> set (marked c @ [sync_id item]) \<longrightarrow> synced q = 1"
  proof (intro ballI impI)
    fix q assume q: "q \<in> set (sync_queue ?d)"
      and i: "sync_id q \<in> set (marked c @ [sync_id item])"
    from synced_markSynced [OF q] obtain q0 where
      a: "sync_id q = sync_id item \<longrightarrow> synced q = 1"
      and b: "q0 \<in> set (sync_queue (database (svc c)))" "sync_id q0 = sync_id q"
        "sync_id q \<noteq> sync_id item \<longrightarrow> synced q = synced q0"
      by blast
    show "synced q = 1"
    proof (cases "sync_id q = sync_id item")
      case True
      with a show ?thesis by simp
    next
      case False
      with i have "sync_id q0 \<in> set (marked c)" using b(2) by simp
      with m(3) b(1) have "synced q0 = 1" by blast
      with b(3) False show ?thesis by simp
    qed
  qed
  have dm: "distinct (marked c @ [sync_id item])" using m(1) s(8) by simp
  have sm: "set (marked c @ [sync_id item]) \<subseteq> set (queue_ids c)" using m(2) s(6) by simp
  have rest: "\<forall>x \<in> set items. sync_id x \<notin> set (marked c @ [sync_id item])"
    using s(5,9) by (auto simp: image_iff)
  show ?thesis
  proof (cases "items = []")
    case True
    then show ?thesis
      unfolding flight_inv_def next_item_def queue_ids_def
      using s(1,2) m(4) dm sm six ids by (simp add: queue_ids_def)
  next
    case False
    then show ?thesis
      unfolding flight_inv_def next_item_def queue_ids_def
      using s(1,2,3,4,7) m(4) dm sm six ids rest by (simp add: queue_ids_def)
  qed
qed

lemma inv_rejected:
  assumes "flight_inv c" and "running c = before @ (item # items) # after"
  shows "flight_inv (next_item
          (c\<lparr>svc := (svc c)\<lparr>database := incrementSyncRetry (database (svc c)) (sync_id item),
                            max_retries_log := l\<rparr>\<rparr>)
          before items after)"
proof -
  note s = inv_single [OF assms]
  have m: "distinct (marked c)" "set (marked c) \<subseteq> set (queue_ids c)"
      "\<forall>q \<in> set (sync_queue (database (svc c))). sync_id q \<in> set (marked c) \<longrightarrow> synced q = 1"
      "distinct (queue_ids c)"
    using assms(1) by (simp_all add: flight_inv_def)
  let ?d = "incrementSyncRetry (database (svc c)) (sync_id item)"
  have ids: "map sync_id (sync_queue ?d) = queue_ids c"
    by (simp add: queue_ids_def)
  have six: "\<forall>q \<in> set (sync_queue ?d). sync_id q \<in> set (marked c) \<longrightarrow> synced q = 1"
  proof (intro ballI impI)
    fix q assume q: "q \<in> set (sync_queue ?d)"
      and i: "sync_id q \<in> set (marked c)"
    from synced_incrementRetry [OF q] obtain q0 where
      b: "q0 \<in> set (sync_queue (database (svc c)))" "sync_id q0 = sync_id q" "synced q = synced q0"
      by blast
    with i m(3) show "synced q = 1" by auto
  qed
  show ?thesis
  proof (cases "items = []")
    case True
    then show ?thesis
      unfolding flight_inv_def next_item_def queue_ids_def
      using s(1,2) m six ids by (simp add: queue_ids_def)
  next
    case False
    then show ?thesis
      unfolding flight_inv_def next_item_def queue_ids_def
      using s(1,2,3,4,7,9) m six ids by (simp add: queue_ids_def)
  qed
qed

lemma createSyncItem_Inr:
  "createSyncItem env now d sessionId packageId act dat = Inr d' \<Longrightarrow>
   \<exists>entry. d' = d\<lparr>sync_queue := sync_queue d @ [entry]\<rparr>
          \<and> sync_id entry = next_id (map sync_id (sync_queue d))"
  by (auto simp: createSyncItem_def stmt_insertSyncItem_def split: sum.splits option.splits)

lemma inv_enqueue:
  assumes "flight_inv c"
      and "createSyncItem env now (database (svc c)) sessionId packageId act dat = Inr d'"
  shows "flight_inv (c\<lparr>svc := (svc c)\<lparr>database := d'\<rparr>\<rparr>)"
proof -
  obtain entry
    where d': "d' = (database (svc c))\<lparr>sync_queue := sync_queue (database (svc c)) @ [entry]\<rparr>"
      and entry_def: "sync_id entry = next_id (map sync_id (sync_queue (database (svc c))))"
    using createSyncItem_Inr [OF assms(2)] by auto
  have fresh: "sync_id entry \<notin> set (queue_ids c)"
    using next_id_fresh [of "queue_ids c"] by (simp add: entry_def queue_ids_def)
  have ids: "queue_ids (c\<lparr>svc := (svc c)\<lparr>database := d'\<rparr>\<rparr>) = queue_ids c @ [sync_id entry]"
    by (simp add: d' queue_ids_def)
  have m: "distinct (marked c)" "set (marked c) \<subseteq> set (queue_ids c)"
      "\<forall>q \<in> set (sync_queue (database (svc c))). sync_id q \<in> set (marked c) \<longrightarrow> synced q = 1"
      "distinct (queue_ids c)" "syncing (svc c) \<longleftrightarrow> running c \<noteq> []" "length (running c) \<le> 1"
      "\<forall>p \<in> set (running c). p \<noteq> [] \<and> distinct (map sync_id p)
          \<and> set (map sync_id p) \<subseteq> set (queue_ids c)
          \<and> (\<forall>x \<in> set p. sync_id x \<notin> set (marked c))"
    using assms(1) by (simp_all add: flight_inv_def)
  have nm: "sync_id entry \<notin> set (marked c)" using fresh m(2) by blast
  have six: "\<forall>q \<in> set (sync_queue d'). sync_id q \<in> set (marked c) \<longrightarrow> synced q = 1"
    using m(3) nm by (auto simp: d')
  have seven: "\<forall>p \<in> set (running c). p \<noteq> [] \<and> distinct (map sync_id p)
          \<and> set (map sync_id p) \<subseteq> set (queue_ids c @ [sync_id entry])
          \<and> (\<forall>x \<in> set p. sync_id x \<notin> set (marked c))"
    using m(7) by auto
  show ?thesis
    unfolding flight_inv_def ids
    using m(1,2,4,5,6) fresh six seven by auto
qed

lemma inv_step:
  assumes "flight_inv c" and "step env cfg c e c'"
  shows "flight_inv c'"
  using assms(2)
proof cases
  case busy
  with assms(1) show ?thesis by simp
next
  case no_items
  with assms(1) show ?thesis by (simp add: flight_inv_def queue_ids_def)
next
  case (start pendingItems)
  with assms(1) show ?thesis by (simp add: inv_start)
next
  case (fulfilled before item items after now)
  with assms(1) show ?thesis using inv_fulfilled by simp
next
  case (rejected before item items after)
  with assms(1) show ?thesis using inv_rejected by simp
next
  case (enqueue now sessionId packageId act dat d')
  with assms(1) show ?thesis using inv_enqueue by simp
qed

lemma inv_reachable:
  assumes "reachable env cfg c0 c" and "flight_inv c0"
  shows "flight_inv c"
  using assms by (induction rule: reachable.induct) (auto intro: inv_step)

lemma reachable_trans:
  assumes "reachable env cfg c1 c2" and "reachable env cfg c0 c1"
  shows "reachable env cfg c0 c2"
  using assms by (induction rule: reachable.induct) (auto intro: reachable.after)

lemma processSyncQueue_snd:
  "snd (processSyncQueue env sink cfg now s) =
     (if syncing s then s
      else if getPendingSyncItems (database s) (batchSize cfg) = [] then s\<lparr>syncing := False\<rparr>
      else (fst (process_items env sink cfg now (getPendingSyncItems (database s) (batchSize cfg))
                   (s\<lparr>syncing := True\<rparr>) 0 0))\<lparr>syncing := False\<rparr>)"
  by (simp add: processSyncQueue_def Let_def case_prod_beta)

lemma reachable_step:
  "step env cfg c e c1 \<Longrightarrow> reachable env cfg c1 c2 \<Longrightarrow> reachable env cfg c c2"
  by (meson reachable.after reachable.init reachable_trans)

lemma pass_runs:
  assumes "running c = [item # items]"
  shows "\<exists>m. reachable env cfg c
           (c\<lparr>svc := (fst (process_items env sink cfg now (item # items) (svc c) a b))\<lparr>syncing := False\<rparr>,
              running := [], marked := m\<rparr>)"
  using assms
proof (induction items arbitrary: c item a b)
  case Nil
  then have r: "running c = [] @ (item # []) # []" by simp
  show ?case
  proof (cases "processSyncItem env sink item")
    case True
    have "next_item
          (c\<lparr>svc := (svc c)\<lparr>database := markSyncItemSynced now (database (svc c)) (sync_id item)\<rparr>,
             marked := marked c @ [sync_id item]\<rparr>) [] [] []
        = c\<lparr>svc := (fst (process_items env sink cfg now [item] (svc c) a b))\<lparr>syncing := False\<rparr>,
               running := [], marked := marked c @ [sync_id item]\<rparr>"
      using True by (simp add: next_item_def)
    then have "step env cfg c (Settled True)
            (c\<lparr>svc := (fst (process_items env sink cfg now [item] (svc c) a b))\<lparr>syncing := False\<rparr>,
               running := [], marked := marked c @ [sync_id item]\<rparr>)"
      using step.fulfilled [OF r, of env cfg now] by simp
    then show ?thesis
      using reachable.after [OF reachable.init] by blast
  next
    case False
    have "next_item
          (c\<lparr>svc := (svc c)\<lparr>database := incrementSyncRetry (database (svc c)) (sync_id item),
                            max_retries_log :=
                              (if retry_count item \<ge> maxRetries cfg
                               then max_retries_log (svc c) @ [sync_id item]
                               else max_retries_log (svc c))\<rparr>\<rparr>) [] [] []
        = c\<lparr>svc := (fst (process_items env sink cfg now [item] (svc c) a b))\<lparr>syncing := False\<rparr>,
               running := [], marked := marked c\<rparr>"
      using False by (simp add: next_item_def)
    then have "step env cfg c (Settled False)
            (c\<lparr>svc := (fst (process_items env sink cfg now [item] (svc c) a b))\<lparr>syncing := False\<rparr>,
               running := [], marked := marked c\<rparr>)"
      using step.rejected [OF r, of env cfg] by simp
    then show ?thesis
      using reachable.after [OF reachable.init] by blast
  qed
next
  case (Cons i2 rest)
  then have r: "running c = [] @ (item # i2 # rest) # []" by simp
  show ?case
  proof (cases "processSyncItem env sink item")
    case True
    define c1 where "c1 = c\<lparr>svc := (svc c)\<lparr>database := markSyncItemSynced now (database (svc c)) (sync_id item)\<rparr>,
             marked := marked c @ [sync_id item], running := [i2 # rest]\<rparr>"
    have s1: "step env cfg c (Settled True) c1"
      using step.fulfilled [OF r, of env cfg now] by (simp add: next_item_def c1_def)
    have "running c1 = [i2 # rest]" by (simp add: c1_def)
    from Cons.IH [OF this, of "a + 1" b] obtain m where
      "reachable env cfg c1
         (c1\<lparr>svc := (fst (process_items env sink cfg now (i2 # rest) (svc c1) (a + 1) b))\<lparr>syncing := False\<rparr>,
             running := [], marked := m\<rparr>)" by blast
    with s1 have "reachable env cfg c
         (c1\<lparr>svc := (fst (process_items env sink cfg now (i2 # rest) (svc c1) (a + 1) b))\<lparr>syncing := False\<rparr>,
             running := [], marked := m\<rparr>)"
      by (rule reachable_step)
    moreover have "c1\<lparr>svc := (fst (process_items env sink cfg now (i2 # rest) (svc c1) (a + 1) b))\<lparr>syncing := False\<rparr>,
             running := [], marked := m\<rparr>
       = c\<lparr>svc := (fst (process_items env sink cfg now (item # i2 # rest) (svc c) a b))\<lparr>syncing := False\<rparr>,
              running := [], marked := m\<rparr>"
      using True by (simp add: c1_def)
    ultimately show ?thesis by auto
  next
    case False
    define c1 where "c1 = c\<lparr>svc := (svc c)\<lparr>database := incrementSyncRetry (database (svc c)) (sync_id item),
                            max_retries_log :=
                              (if retry_count item \<ge> maxRetries cfg
                               then max_retries_log (svc c) @ [sync_id item]
                               else max_retries_log (svc c))\<rparr>, running := [i2 # rest]\<rparr>"
    have s1: "step env cfg c (Settled False) c1"
      using step.rejected [OF r, of env cfg] by (simp add: next_item_def c1_def)
    have "running c1 = [i2 # rest]" by (simp add: c1_def)
    from Cons.IH [OF this, of a "b + 1"] obtain m where
      "reachable env cfg c1
         (c1\<lparr>svc := (fst (process_items env sink cfg now (i2 # rest) (svc c1) a (b + 1)))\<lparr>syncing := False\<rparr>,
             running := [], marked := m\<rparr>)" by blast
    with s1 have "reachable env cfg c
         (c1\<lparr>svc := (fst (process_items env sink cfg now (i2 # rest) (svc c1) a (b + 1)))\<lparr>syncing := False\<rparr>,
             running := [], marked := m\<rparr>)"
      by (rule reachable_step)
    moreover have "c1\<lparr>svc := (fst (process_items env sink cfg now (i2 # rest) (svc c1) a (b + 1)))\<lparr>syncing := False\<rparr>,
             running := [], marked := m\<rparr>
       = c\<lparr>svc := (fst (process_items env sink cfg now (item # i2 # rest) (svc c) a b))\<lparr>syncing := False\<rparr>,
              running := [], marked := m\<rparr>"
      using False by (simp add: c1_def)
    ultimately show ?thesis by auto
  qed
qed

text \<open>An uninterrupted run of the steps is the function processSyncQueue.\<close>

lemma processSyncQueue_as_steps:
  assumes "\<not> syncing (svc c)" and "running c = []"
  shows "\<exists>m. reachable env cfg c
           (c\<lparr>svc := snd (processSyncQueue env sink cfg now (svc c)), marked := m\<rparr>)"
proof (cases "getPendingSyncItems (database (svc c)) (batchSize cfg)")
  case Nil
  then have "step env cfg c (Returned NoItems) (c\<lparr>svc := (svc c)\<lparr>syncing := False\<rparr>\<rparr>)"
    using assms(1) by (simp add: step.no_items)
  then have "reachable env cfg c (c\<lparr>svc := (svc c)\<lparr>syncing := False\<rparr>\<rparr>)"
    using reachable.after [OF reachable.init] by blast
  moreover have "c\<lparr>svc := (svc c)\<lparr>syncing := False\<rparr>\<rparr>
      = c\<lparr>svc := snd (processSyncQueue env sink cfg now (svc c)), marked := marked c\<rparr>"
    using Nil assms(1) by (simp add: processSyncQueue_snd)
  ultimately show ?thesis by metis
next
  case (Cons item items)
  define c1 where "c1 = c\<lparr>svc := (svc c)\<lparr>syncing := True\<rparr>, running := [item # items]\<rparr>"
  have s1: "step env cfg c Started c1"
    using step.start [OF assms(1) refl, of cfg env] Cons assms(2) by (simp add: c1_def)
  have "running c1 = [item # items]" by (simp add: c1_def)
  from pass_runs [OF this, of env cfg sink now 0 0] obtain m where
    "reachable env cfg c1
           (c1\<lparr>svc := (fst (process_items env sink cfg now (item # items) (svc c1) 0 0))\<lparr>syncing := False\<rparr>,
              running := [], marked := m\<rparr>)" by blast
  with s1 have "reachable env cfg c
           (c1\<lparr>svc := (fst (process_items env sink cfg now (item # items) (svc c1) 0 0))\<lparr>syncing := False\<rparr>,
              running := [], marked := m\<rparr>)"
    by (rule reachable_step)
  moreover have "c1\<lparr>svc := (fst (process_items env sink cfg now (item # items) (svc c1) 0 0))\<lparr>syncing := False\<rparr>,
              running := [], marked := m\<rparr>
       = c\<lparr>svc := snd (processSyncQueue env sink cfg now (svc c)), marked := m\<rparr>"
    using Cons assms unfolding processSyncQueue_snd by (simp add: c1_def)
  ultimately show ?thesis by metis
qed

text \<open>
  C4. In every state reachable by interleaving calls of \<open>processSyncQueue\<close> (from
  the timer, \<open>triggerSync\<close> or an upload), resumptions of a suspended pass and
  uploads, starting with no pass in flight: at most one pass is in flight, and the
  \<open>syncing\<close> flag is set exactly then; a call made while a pass is in flight can
  be answered, and is answered only, by \<open>already_syncing\<close>, leaving the state
  (and so the pass in flight) untouched; and no queue entry id is passed to
  \<open>markSyncItemSynced\<close> twice.
\<close>

theorem single_flight:
  assumes "reachable env cfg c0 c"
      and "running c0 = []" and "\<not> syncing (svc c0)" and "marked c0 = []"
      and "distinct (queue_ids c0)"
  shows "length (running c) \<le> 1
       \<and> (syncing (svc c) \<longleftrightarrow> running c \<noteq> [])
       \<and> distinct (marked c)
       \<and> (syncing (svc c) \<longrightarrow> step env cfg c (Returned AlreadySyncing) c)
       \<and> (\<forall>e c'. syncing (svc c) \<and> step env cfg c e c' \<and> (e = Started \<or> (\<exists>r. e = Returned r))
             \<longrightarrow> e = Returned AlreadySyncing \<and> c' = c)"
proof -
  have "flight_inv c0" using assms(2-5) by (simp add: flight_inv_def)
  with assms(1) have i: "flight_inv c" by (rule inv_reachable)
  have call: "\<And>e c'. syncing (svc c) \<Longrightarrow> step env cfg c e c' \<Longrightarrow> (e = Started \<or> (\<exists>r. e = Returned r))
             \<Longrightarrow> e = Returned AlreadySyncing \<and> c' = c"
    by (erule step.cases) auto
  show ?thesis
    using i call by (auto simp: flight_inv_def intro: step.busy)
qed

theorem single_flight_witness:
  "syncing (svc ((conc_idle [pending_entry 1, pending_entry 2])
            \<lparr>svc := (svc (conc_idle [pending_entry 1, pending_entry 2]))\<lparr>syncing := True\<rparr>,
              running := [[pending_entry 1, pending_entry 2]]\<rparr>))
   \<and> length (running ((conc_idle [pending_entry 1, pending_entry 2])
            \<lparr>svc := (svc (conc_idle [pending_entry 1, pending_entry 2]))\<lparr>syncing := True\<rparr>,
              running := [[pending_entry 1, pending_entry 2]]\<rparr>)) \<le> 1
   \<and> step stub_env config_sync
        ((conc_idle [pending_entry 1, pending_entry 2])
            \<lparr>svc := (svc (conc_idle [pending_entry 1, pending_entry 2]))\<lparr>syncing := True\<rparr>,
              running := [[pending_entry 1, pending_entry 2]]\<rparr>)
        (Returned AlreadySyncing)
        ((conc_idle [pending_entry 1, pending_entry 2])
            \<lparr>svc := (svc (conc_idle [pending_entry 1, pending_entry 2]))\<lparr>syncing := True\<rparr>,
              running := [[pending_entry 1, pending_entry 2]]\<rparr>)"
proof -
  let ?c0 = "conc_idle [pending_entry 1, pending_entry 2]"
  let ?c1 = "?c0\<lparr>svc := (svc ?c0)\<lparr>syncing := True\<rparr>, running := [[pending_entry 1, pending_entry 2]]\<rparr>"
  have p: "getPendingSyncItems (database (svc ?c0)) (batchSize config_sync)
             = [pending_entry 1, pending_entry 2]"
    by (simp add: conc_idle_def idle_service_def empty_db_def getPendingSyncItems_def
        stmt_getPendingSync_def pending_entry_def config_sync_def)
  have n: "\<not> syncing (svc ?c0)" by (simp add: conc_idle_def idle_service_def)
  have "step stub_env config_sync ?c0 Started
          (?c0\<lparr>svc := (svc ?c0)\<lparr>syncing := True\<rparr>,
               running := running ?c0 @ [getPendingSyncItems (database (svc ?c0)) (batchSize config_sync)]\<rparr>)"
    using step.start [OF n refl, of config_sync stub_env] p by simp
  then have s: "step stub_env config_sync ?c0 Started ?c1"
    unfolding p by (simp add: conc_idle_def)
  have r: "reachable stub_env config_sync ?c0 ?c1"
    using reachable.after [OF reachable.init s] .
  have i: "running ?c0 = []" "marked ?c0 = []" "distinct (queue_ids ?c0)"
    by (simp_all add: conc_idle_def queue_ids_def idle_service_def empty_db_def pending_entry_def)
  show ?thesis
    using single_flight [OF r i(1) n i(2) i(3)] by simp
qed

subsection \<open>Upload\<close>

lemma createSyncItem_strings:
  "createSyncItem env now d (JStr sessionId) (JStr packageId) (JStr ty) dat
     = Inr (d\<lparr>sync_queue := sync_queue d @
              [\<lparr>sync_id = next_id (map sync_id (sync_queue d)), sync_session_id = sessionId,
                sync_package_id = packageId, action = ty,
                data = (if dat = JUndefined then JNull else JStr (JSON_stringify env dat)),
                created_at = now, synced = 0, synced_at = None, retry_count = 0\<rparr>]\<rparr>)"
  by (simp add: createSyncItem_def stmt_insertSyncItem_def bind_args_def bind_next_def
      not_null_text_def)

lemma createSyncItem_no_type:
  "nullish ty \<Longrightarrow>
   createSyncItem env now d (JStr sessionId) (JStr packageId) ty dat
     = Inl (FailedTo ''create sync item'' SqliteError)"
  by (cases ty)
     (simp_all add: createSyncItem_def stmt_insertSyncItem_def bind_args_def bind_next_def
        not_null_text_def)

lemma entries_for_Cons:
  assumes "entries_for env now sessionId packageId actions entries"
      and "JStr (action entry) = opt_field a ''type''"
      and "data entry = (if opt_field a ''data'' = JUndefined then JNull
                         else JStr (JSON_stringify env (opt_field a ''data'')))"
      and "sync_session_id entry = sessionId" "sync_package_id entry = packageId"
      and "synced entry = 0" "synced_at entry = None" "retry_count entry = 0"
      and "created_at entry = now"
  shows "entries_for env now sessionId packageId (a # actions) (entry # entries)"
  unfolding entries_for_def
proof (intro conjI allI impI)
  show "length (entry # entries) = length (a # actions)"
    using assms(1) by (simp add: entries_for_def)
next
  fix k assume "k < length (a # actions)"
  then show "JStr (action ((entry # entries) ! k)) = opt_field ((a # actions) ! k) ''type''"
    "data ((entry # entries) ! k) =
       (if opt_field ((a # actions) ! k) ''data'' = JUndefined then JNull
        else JStr (JSON_stringify env (opt_field ((a # actions) ! k) ''data'')))"
    "sync_session_id ((entry # entries) ! k) = sessionId"
    "sync_package_id ((entry # entries) ! k) = packageId"
    "synced ((entry # entries) ! k) = 0" "synced_at ((entry # entries) ! k) = None"
    "retry_count ((entry # entries) ! k) = 0" "created_at ((entry # entries) ! k) = now"
    using assms by (cases k; simp add: entries_for_def)+
qed

text \<open>The loop over well-formed actions enqueues them all and goes on with the rest.\<close>

lemma createSyncItems_typed:
  assumes "\<forall>a \<in> set actions. \<not> nullish a \<and> (\<exists>ty. opt_field a ''type'' = JStr ty)"
  shows "\<exists>entries.
           entries_for env now sessionId packageId actions entries
         \<and> (distinct (map sync_id (sync_queue d))
              \<longrightarrow> distinct (map sync_id (sync_queue d @ entries)))
         \<and> createSyncItems env now d (JStr sessionId) (JStr packageId) (actions @ rest)
             = createSyncItems env now (d\<lparr>sync_queue := sync_queue d @ entries\<rparr>)
                 (JStr sessionId) (JStr packageId) rest"
  using assms
proof (induction actions arbitrary: d)
  case Nil
  show ?case by (rule exI [of _ "[]"]) (simp add: entries_for_def)
next
  case (Cons a actions)
  obtain ty where ty: "opt_field a ''type'' = JStr ty" and nn: "\<not> nullish a"
    using Cons.prems by auto
  define entry where "entry =
     \<lparr>sync_id = next_id (map sync_id (sync_queue d)), sync_session_id = sessionId,
      sync_package_id = packageId, action = ty,
      data = (if opt_field a ''data'' = JUndefined then JNull
              else JStr (JSON_stringify env (opt_field a ''data''))),
      created_at = now, synced = 0, synced_at = None, retry_count = 0\<rparr>"
  define d1 where "d1 = d\<lparr>sync_queue := sync_queue d @ [entry]\<rparr>"
  have c: "createSyncItem env now d (JStr sessionId) (JStr packageId) (JStr ty) (opt_field a ''data'')
             = Inr d1"
    by (simp add: createSyncItem_strings entry_def d1_def)
  have step: "createSyncItems env now d (JStr sessionId) (JStr packageId) ((a # actions) @ rest)
                = createSyncItems env now d1 (JStr sessionId) (JStr packageId) (actions @ rest)"
    using c ty nn by (simp add: dot_field_def)
  obtain entries where es:
      "entries_for env now sessionId packageId actions entries"
      "distinct (map sync_id (sync_queue d1)) \<longrightarrow> distinct (map sync_id (sync_queue d1 @ entries))"
      "createSyncItems env now d1 (JStr sessionId) (JStr packageId) (actions @ rest)
         = createSyncItems env now (d1\<lparr>sync_queue := sync_queue d1 @ entries\<rparr>)
             (JStr sessionId) (JStr packageId) rest"
    using Cons.IH [of d1] Cons.prems by auto
  have fresh: "sync_id entry \<notin> set (map sync_id (sync_queue d))"
    using next_id_fresh [of "map sync_id (sync_queue d)"] by (simp add: entry_def)
  have e: "entries_for env now sessionId packageId (a # actions) (entry # entries)"
    by (rule entries_for_Cons [OF es(1)]) (simp_all add: entry_def ty)
  have dd: "distinct (map sync_id (sync_queue d))
              \<longrightarrow> distinct (map sync_id (sync_queue d @ entry # entries))"
    using es(2) fresh by (simp add: d1_def)
  have "d1\<lparr>sync_queue := sync_queue d1 @ entries\<rparr> = d\<lparr>sync_queue := sync_queue d @ entry # entries\<rparr>"
    by (simp add: d1_def)
  then have cc: "createSyncItems env now d (JStr sessionId) (JStr packageId) ((a # actions) @ rest)
             = createSyncItems env now (d\<lparr>sync_queue := sync_queue d @ entry # entries\<rparr>)
                 (JStr sessionId) (JStr packageId) rest"
    using step es(3) by simp
  show ?case
    using e dd cc by blast
qed

text \<open>
  A pass settles each fetched entry once: the entries of the batch that the sink
  accepts are marked synced, those it refuses have their retry count raised, and
  every other entry is left as it is.
\<close>

lemma process_items_queue:
  "distinct (map sync_id items) \<Longrightarrow>
   sync_queue (database (fst (process_items env sink cfg now items s a b)))
     = map (\<lambda>q. case find (\<lambda>i. sync_id i = sync_id q) items of
                  None \<Rightarrow> q
                | Some i \<Rightarrow> if processSyncItem env sink i
                            then q\<lparr>synced := 1, synced_at := Some now\<rparr>
                            else q\<lparr>retry_count := retry_count q + 1\<rparr>)
           (sync_queue (database s))"
proof (induction items arbitrary: s a b)
  case Nil
  then show ?case by (simp add: map_idI)
next
  case (Cons i items)
  have d: "distinct (map sync_id items)" and n: "sync_id i \<notin> sync_id ` set items"
    using Cons.prems by simp_all
  have none: "find (\<lambda>x. sync_id x = sync_id i) items = None"
    using n by (auto simp: find_None_iff intro: rev_image_eqI)
  show ?case
  proof (cases "processSyncItem env sink i")
    case True
    then show ?thesis
      using Cons.IH [OF d] none
      by (auto simp: markSyncItemSynced_def stmt_markSynced_def)
  next
    case False
    then show ?thesis
      using Cons.IH [OF d] none
      by (auto simp: incrementSyncRetry_def stmt_incrementRetry_def)
  qed
qed

lemma find_by_id:
  assumes "distinct (map sync_id qs)" and "set items \<subseteq> set qs" and "q \<in> set qs"
  shows "find (\<lambda>i. sync_id i = sync_id q) items = (if q \<in> set items then Some q else None)"
  using assms(2)
proof (induction items)
  case Nil
  then show ?case by simp
next
  case (Cons i items)
  have inj: "inj_on sync_id (set qs)" using assms(1) by (simp add: distinct_map)
  have "sync_id i = sync_id q \<longleftrightarrow> i = q"
    using inj Cons.prems assms(3) by (auto simp: inj_on_def)
  then show ?case using Cons by auto
qed

lemma processSyncQueue_queue:
  assumes "distinct (map sync_id (sync_queue (database s)))" and "\<not> syncing s"
  shows "\<not> syncing (snd (processSyncQueue env sink cfg now s))"
    and "sync_queue (database (snd (processSyncQueue env sink cfg now s)))
           = map (\<lambda>q. if q \<in> set (getPendingSyncItems (database s) (batchSize cfg))
                       then (if processSyncItem env sink q
                             then q\<lparr>synced := 1, synced_at := Some now\<rparr>
                             else q\<lparr>retry_count := retry_count q + 1\<rparr>)
                       else q)
                 (sync_queue (database s))"
proof -
  let ?items = "getPendingSyncItems (database s) (batchSize cfg)"
  show "\<not> syncing (snd (processSyncQueue env sink cfg now s))"
    using assms(2) by (simp add: processSyncQueue_def Let_def split: prod.splits)
  have di: "distinct (map sync_id ?items)" and sub: "set ?items \<subseteq> set (sync_queue (database s))"
    using pending_props [OF assms(1), of "batchSize cfg"] by auto
  have f: "\<And>q. q \<in> set (sync_queue (database s)) \<Longrightarrow>
             find (\<lambda>i. sync_id i = sync_id q) ?items = (if q \<in> set ?items then Some q else None)"
    using find_by_id [OF assms(1) sub] .
  have p: "sync_queue (database (fst (process_items env sink cfg now ?items (s\<lparr>syncing := True\<rparr>) 0 0)))
     = map (\<lambda>q. case find (\<lambda>i. sync_id i = sync_id q) ?items of
                  None \<Rightarrow> q
                | Some i \<Rightarrow> if processSyncItem env sink i
                            then q\<lparr>synced := 1, synced_at := Some now\<rparr>
                            else q\<lparr>retry_count := retry_count q + 1\<rparr>)
           (sync_queue (database s))"
    using process_items_queue [OF di, of env sink cfg now "s\<lparr>syncing := True\<rparr>" 0 0] by simp
  have m: "map (\<lambda>q. case find (\<lambda>i. sync_id i = sync_id q) ?items of
                  None \<Rightarrow> q
                | Some i \<Rightarrow> if processSyncItem env sink i
                            then q\<lparr>synced := 1, synced_at := Some now\<rparr>
                            else q\<lparr>retry_count := retry_count q + 1\<rparr>)
           (sync_queue (database s))
         = map (\<lambda>q. if q \<in> set ?items
                       then (if processSyncItem env sink q
                             then q\<lparr>synced := 1, synced_at := Some now\<rparr>
                             else q\<lparr>retry_count := retry_count q + 1\<rparr>)
                       else q)
                 (sync_queue (database s))"
    by (rule map_cong [OF refl]) (simp add: f)
  show "sync_queue (database (snd (processSyncQueue env sink cfg now s)))
           = map (\<lambda>q. if q \<in> set ?items
                       then (if processSyncItem env sink q
                             then q\<lparr>synced := 1, synced_at := Some now\<rparr>
                             else q\<lparr>retry_count := retry_count q + 1\<rparr>)
                       else q)
                 (sync_queue (database s))"
  proof (cases "?items = []")
    case True
    then show ?thesis
      using assms(2) by (simp add: processSyncQueue_def Let_def map_idI)
  next
    case False
    have pm: "sync_queue (database (fst (process_items env sink cfg now ?items (s\<lparr>syncing := True\<rparr>) 0 0)))
         = map (\<lambda>q. if q \<in> set ?items
                       then (if processSyncItem env sink q
                             then q\<lparr>synced := 1, synced_at := Some now\<rparr>
                             else q\<lparr>retry_count := retry_count q + 1\<rparr>)
                       else q)
                 (sync_queue (database s))"
      using p m by simp
    obtain s1 a b where r: "process_items env sink cfg now ?items (s\<lparr>syncing := True\<rparr>) 0 0 = (s1, a, b)"
      by (cases "process_items env sink cfg now ?items (s\<lparr>syncing := True\<rparr>) 0 0")
    then have "sync_queue (database s1)
         = map (\<lambda>q. if q \<in> set ?items
                       then (if processSyncItem env sink q
                             then q\<lparr>synced := 1, synced_at := Some now\<rparr>
                             else q\<lparr>retry_count := retry_count q + 1\<rparr>)
                       else q)
                 (sync_queue (database s))"
      using pm by simp
    then show ?thesis
      using assms(2) False r
      by (simp add: processSyncQueue_def Let_def)
  qed
qed

text \<open>
  C7 (as stated, refuted). A pass has started on a queue of one entry and waits for
  the sink (a state the steps of the service reach), when a batch of one action is
  uploaded. The action is enqueued and the upload returns success, but its call of
  \<open>processSyncQueue\<close> is answered by \<open>already_syncing\<close>: no pass is triggered,
  and the new entry is still pending and untried when the upload returns, although
  the sink would have taken it.
\<close>

theorem uploadOfflineSession_busy_counterexample:
  "reachable stub_env config_sync (conc_idle [pending_entry 1])
     \<lparr>svc = busy_service [pending_entry 1], running = [[pending_entry 1]], marked = []\<rparr>
   \<and> uploadOfflineSession stub_env accepting_lms config_sync 20 (busy_service [pending_entry 1])
       commit_batch
     = (Inr Queued,
        (busy_service [pending_entry 1])\<lparr>database := empty_db\<lparr>sync_queue :=
           [pending_entry 1,
            \<lparr>sync_id = 2, sync_session_id = ''s1'', sync_package_id = ''p1'', action = ''commit'',
             data = JStr ''{}'', created_at = 20, synced = 0, synced_at = None,
             retry_count = 0\<rparr>]\<rparr>\<rparr>)
   \<and> fst (processSyncQueue stub_env accepting_lms config_sync 20
            ((busy_service [pending_entry 1])\<lparr>database := empty_db\<lparr>sync_queue :=
               [pending_entry 1,
                \<lparr>sync_id = 2, sync_session_id = ''s1'', sync_package_id = ''p1'',
                 action = ''commit'', data = JStr ''{}'', created_at = 20, synced = 0,
                 synced_at = None, retry_count = 0\<rparr>]\<rparr>\<rparr>))
       = AlreadySyncing"
proof -
  let ?c0 = "conc_idle [pending_entry 1]"
  have p: "getPendingSyncItems (database (svc ?c0)) (batchSize config_sync) = [pending_entry 1]"
    by (simp add: conc_idle_def idle_service_def empty_db_def getPendingSyncItems_def
        stmt_getPendingSync_def pending_entry_def config_sync_def)
  have n: "\<not> syncing (svc ?c0)" by (simp add: conc_idle_def idle_service_def)
  have "step stub_env config_sync ?c0 Started
          (?c0\<lparr>svc := (svc ?c0)\<lparr>syncing := True\<rparr>,
               running := running ?c0 @ [getPendingSyncItems (database (svc ?c0)) (batchSize config_sync)]\<rparr>)"
    using step.start [OF n refl, of config_sync stub_env] p by simp
  then have "step stub_env config_sync ?c0 Started
          \<lparr>svc = busy_service [pending_entry 1], running = [[pending_entry 1]], marked = []\<rparr>"
    unfolding p by (simp add: conc_idle_def busy_service_def)
  then have r: "reachable stub_env config_sync ?c0
          \<lparr>svc = busy_service [pending_entry 1], running = [[pending_entry 1]], marked = []\<rparr>"
    using reachable.after [OF reachable.init] by blast
  have u: "uploadOfflineSession stub_env accepting_lms config_sync 20 (busy_service [pending_entry 1])
       commit_batch
     = (Inr Queued,
        (busy_service [pending_entry 1])\<lparr>database := empty_db\<lparr>sync_queue :=
           [pending_entry 1,
            \<lparr>sync_id = 2, sync_session_id = ''s1'', sync_package_id = ''p1'', action = ''commit'',
             data = JStr ''{}'', created_at = 20, synced = 0, synced_at = None,
             retry_count = 0\<rparr>]\<rparr>\<rparr>)"
    by (simp add: uploadOfflineSession_def commit_batch_def busy_service_def idle_service_def
        empty_db_def createSyncItem_def stmt_insertSyncItem_def bind_args_def bind_next_def
        not_null_text_def next_id_def dot_field_def stub_env_def processSyncQueue_def
        pending_entry_def)
  have a: "fst (processSyncQueue stub_env accepting_lms config_sync 20
            ((busy_service [pending_entry 1])\<lparr>database := empty_db\<lparr>sync_queue :=
               [pending_entry 1,
                \<lparr>sync_id = 2, sync_session_id = ''s1'', sync_package_id = ''p1'',
                 action = ''commit'', data = JStr ''{}'', created_at = 20, synced = 0,
                 synced_at = None, retry_count = 0\<rparr>]\<rparr>\<rparr>))
       = AlreadySyncing"
    by (simp add: processSyncQueue_def busy_service_def)
  show ?thesis using r u a by blast
qed

text \<open>
  C7 (amended). For a batch that names its session and package by strings: if
  every action carries a string type, the upload appends to the queue exactly one
  new entry per action, in the order of the batch, each pending and untried, with
  a fresh id, and returns success after calling \<open>processSyncQueue\<close>. If no pass
  was in flight, that call runs a pass before the upload returns: each of the
  oldest pending entries, up to the batch size, is handed to the sink once, and is
  marked synced if the sink takes it and has its retry count raised if not. If a
  pass was in flight, the call does nothing and the upload leaves the queue as
  extended. If an action has no type, the insert fails on the NOT NULL column:
  the upload throws, the entries of the actions before it stay in the queue, and
  no pass is triggered.
\<close>

theorem uploadOfflineSession_enqueues_then_syncs:
  assumes "\<not> nullish offlineData"
      and "opt_field offlineData ''sessionId'' = JStr sessionId"
      and "opt_field offlineData ''packageId'' = JStr packageId"
      and "\<forall>a \<in> set actions. \<not> nullish a \<and> (\<exists>ty. opt_field a ''type'' = JStr ty)"
  shows "(opt_field offlineData ''actions'' = JArr actions
          \<and> distinct (map sync_id (sync_queue (database s)))
          \<longrightarrow> (\<exists>entries s'.
                 uploadOfflineSession env sink cfg now s offlineData = (Inr Queued, s')
               \<and> entries_for env now sessionId packageId actions entries
               \<and> distinct (map sync_id (sync_queue (database s) @ entries))
               \<and> (syncing s \<longrightarrow>
                    s' = s\<lparr>database := (database s)\<lparr>sync_queue := sync_queue (database s) @ entries\<rparr>\<rparr>)
               \<and> (\<not> syncing s \<longrightarrow>
                    \<not> syncing s'
                  \<and> sync_queue (database s') =
                      map (\<lambda>q. if q \<in> set (take (batchSize cfg)
                                              (sort_key created_at
                                                 (filter (\<lambda>i. synced i = 0)
                                                    (sync_queue (database s) @ entries))))
                                then (if processSyncItem env sink q
                                      then q\<lparr>synced := 1, synced_at := Some now\<rparr>
                                      else q\<lparr>retry_count := retry_count q + 1\<rparr>)
                                else q)
                          (sync_queue (database s) @ entries))))
       \<and> (opt_field offlineData ''actions'' = JArr (actions @ bad # rest)
          \<and> \<not> nullish bad \<and> nullish (opt_field bad ''type'')
          \<longrightarrow> (\<exists>entries.
                 entries_for env now sessionId packageId actions entries
               \<and> uploadOfflineSession env sink cfg now s offlineData
                   = (Inl (FailedTo ''upload offline session''
                             (FailedTo ''create sync item'' SqliteError)),
                      s\<lparr>database := (database s)\<lparr>sync_queue := sync_queue (database s) @ entries\<rparr>\<rparr>)))"
proof (intro conjI impI)
  assume h: "opt_field offlineData ''actions'' = JArr actions
             \<and> distinct (map sync_id (sync_queue (database s)))"
  obtain entries where es:
      "entries_for env now sessionId packageId actions entries"
      "distinct (map sync_id (sync_queue (database s) @ entries))"
      "createSyncItems env now (database s) (JStr sessionId) (JStr packageId) (actions @ [])
         = createSyncItems env now ((database s)\<lparr>sync_queue := sync_queue (database s) @ entries\<rparr>)
             (JStr sessionId) (JStr packageId) []"
    using createSyncItems_typed [OF assms(4), of env now sessionId packageId "database s" "[]"] h
    by auto
  let ?d = "(database s)\<lparr>sync_queue := sync_queue (database s) @ entries\<rparr>"
  let ?s1 = "s\<lparr>database := ?d\<rparr>"
  have u: "uploadOfflineSession env sink cfg now s offlineData
             = (Inr Queued, snd (processSyncQueue env sink cfg now ?s1))"
    using assms(1-3) h es(3) by (simp add: uploadOfflineSession_def)
  have busy: "syncing s \<longrightarrow> snd (processSyncQueue env sink cfg now ?s1) = ?s1"
    by (simp add: processSyncQueue_def)
  have d1: "distinct (map sync_id (sync_queue (database ?s1)))" using es(2) by simp
  have idle: "\<not> syncing s \<longrightarrow>
                \<not> syncing (snd (processSyncQueue env sink cfg now ?s1))
              \<and> sync_queue (database (snd (processSyncQueue env sink cfg now ?s1))) =
                  map (\<lambda>q. if q \<in> set (take (batchSize cfg)
                                          (sort_key created_at
                                             (filter (\<lambda>i. synced i = 0)
                                                (sync_queue (database s) @ entries))))
                            then (if processSyncItem env sink q
                                  then q\<lparr>synced := 1, synced_at := Some now\<rparr>
                                  else q\<lparr>retry_count := retry_count q + 1\<rparr>)
                            else q)
                      (sync_queue (database s) @ entries)"
    using processSyncQueue_queue [OF d1, of env sink cfg now]
    by (simp add: getPendingSyncItems_def stmt_getPendingSync_def)
  show "\<exists>entries s'.
          uploadOfflineSession env sink cfg now s offlineData = (Inr Queued, s')
        \<and> entries_for env now sessionId packageId actions entries
        \<and> distinct (map sync_id (sync_queue (database s) @ entries))
        \<and> (syncing s \<longrightarrow>
             s' = s\<lparr>database := (database s)\<lparr>sync_queue := sync_queue (database s) @ entries\<rparr>\<rparr>)
        \<and> (\<not> syncing s \<longrightarrow>
             \<not> syncing s'
           \<and> sync_queue (database s') =
               map (\<lambda>q. if q \<in> set (take (batchSize cfg)
                                       (sort_key created_at
                                          (filter (\<lambda>i. synced i = 0)
                                             (sync_queue (database s) @ entries))))
                         then (if processSyncItem env sink q
                               then q\<lparr>synced := 1, synced_at := Some now\<rparr>
                               else q\<lparr>retry_count := retry_count q + 1\<rparr>)
                         else q)
                   (sync_queue (database s) @ entries))"
    using u es(1,2) busy idle by blast
next
  assume h: "opt_field offlineData ''actions'' = JArr (actions @ bad # rest)
             \<and> \<not> nullish bad \<and> nullish (opt_field bad ''type'')"
  obtain entries where es:
      "entries_for env now sessionId packageId actions entries"
      "createSyncItems env now (database s) (JStr sessionId) (JStr packageId) (actions @ bad # rest)
         = createSyncItems env now ((database s)\<lparr>sync_queue := sync_queue (database s) @ entries\<rparr>)
             (JStr sessionId) (JStr packageId) (bad # rest)"
    using createSyncItems_typed [OF assms(4), of env now sessionId packageId "database s" "bad # rest"]
    by auto
  have "createSyncItems env now ((database s)\<lparr>sync_queue := sync_queue (database s) @ entries\<rparr>)
             (JStr sessionId) (JStr packageId) (bad # rest)
          = (Some (FailedTo ''create sync item'' SqliteError),
             (database s)\<lparr>sync_queue := sync_queue (database s) @ entries\<rparr>)"
    using h by (simp add: dot_field_def createSyncItem_no_type)
  then have "uploadOfflineSession env sink cfg now s offlineData
               = (Inl (FailedTo ''upload offline session''
                         (FailedTo ''create sync item'' SqliteError)),
                  s\<lparr>database := (database s)\<lparr>sync_queue := sync_queue (database s) @ entries\<rparr>\<rparr>)"
    using assms(1-3) h es(2) by (simp add: uploadOfflineSession_def)
  then show "\<exists>entries.
          entries_for env now sessionId packageId actions entries
        \<and> uploadOfflineSession env sink cfg now s offlineData
            = (Inl (FailedTo ''upload offline session''
                      (FailedTo ''create sync item'' SqliteError)),
               s\<lparr>database := (database s)\<lparr>sync_queue := sync_queue (database s) @ entries\<rparr>\<rparr>)"
    using es(1) by blast
qed

theorem uploadOfflineSession_enqueues_then_syncs_witness:
  "\<not> nullish session_batch
   \<and> opt_field session_batch ''sessionId'' = JStr ''s1''
   \<and> fst (uploadOfflineSession stub_env picky_lms config_sync 20 (idle_service []) session_batch)
       = Inr Queued
   \<and> map (\<lambda>q. (sync_id q, action q, synced q, retry_count q))
        (sync_queue (database (snd
           (uploadOfflineSession stub_env picky_lms config_sync 20 (idle_service []) session_batch))))
       = [(1, ''initialize'', 1, 0), (2, ''commit'', 1, 0), (3, ''terminate'', 0, 1)]
   \<and> uploadOfflineSession stub_env picky_lms config_sync 20 (idle_service []) broken_batch
       = (Inl (FailedTo ''upload offline session'' (FailedTo ''create sync item'' SqliteError)),
          (idle_service [])\<lparr>database := empty_db\<lparr>sync_queue :=
             [\<lparr>sync_id = 1, sync_session_id = ''s1'', sync_package_id = ''p1'',
               action = ''commit'', data = JStr ''{}'', created_at = 20, synced = 0,
               synced_at = None, retry_count = 0\<rparr>]\<rparr>\<rparr>)"
  using uploadOfflineSession_enqueues_then_syncs
    [where offlineData = session_batch and sessionId = "''s1''" and packageId = "''p1''"
       and actions = "[JObj [(''type'', JStr ''initialize''), (''data'', JObj [])],
                       JObj [(''type'', JStr ''commit''), (''data'', JObj [])],
                       JObj [(''type'', JStr ''terminate''), (''data'', JObj [])]]"
       and env = stub_env and sink = picky_lms and cfg = config_sync and now = 20
       and s = "idle_service []"]
  by (simp add: session_batch_def broken_batch_def uploadOfflineSession_def idle_service_def
      empty_db_def createSyncItem_def stmt_insertSyncItem_def bind_args_def bind_next_def
      not_null_text_def next_id_def dot_field_def stub_env_def processSyncQueue_def
      getPendingSyncItems_def stmt_getPendingSync_def config_sync_def processSyncItem_def
      picky_lms_def markSyncItemSynced_def stmt_markSynced_def incrementSyncRetry_def
      stmt_incrementRetry_def)

subsection \<open>Decimal keys\<close>

lemma digit_cases: "d < 10 \<Longrightarrow> d = 0 \<or> d = 1 \<or> d = 2 \<or> d = 3 \<or> d = 4 \<or> d = 5 \<or> d = 6 \<or> d = 7 \<or> d = 8 \<or> d = (9::nat)"
  by arith

lemma digit_char_props:
  assumes "d < 10"
  shows "is_digit (digit_char d)" and "digit_val (digit_char d) = d"
    and "digit_char d \<noteq> CHR ''.''" and "\<not> js_space (digit_char d)"
    and "digit_char d \<noteq> CHR ''+''" and "digit_char d \<noteq> CHR ''-''"
    and "digit_char d \<noteq> CHR ''x''" and "digit_char d \<noteq> CHR ''X''"
    and "(digit_char d = CHR ''0'') = (d = 0)"
  using digit_cases [OF assms]
  by (auto simp: digit_char_def is_digit_def digit_val_def js_space_def)

lemma dec_small: "n < 10 \<Longrightarrow> dec n = [digit_char n]"
  by (subst dec.simps) simp

lemma dec_big: "\<not> n < 10 \<Longrightarrow> dec n = dec (n div 10) @ [digit_char (n mod 10)]"
  by (subst dec.simps) simp

lemma dec_digits: "list_all is_digit (dec n) \<and> dec n \<noteq> []"
proof (induction n rule: dec.induct)
  case (1 n)
  show ?case
  proof (cases "n < 10")
    case True
    then show ?thesis by (simp add: dec_small dec_big digit_char_props)
  next
    case False
    then show ?thesis using 1 by (simp add: dec_small dec_big digit_char_props)
  qed
qed

lemma digits_val_snoc: "digits_val r (ds @ [c]) = digits_val r ds * r + digit_val c"
  by (simp add: digits_val_def)

lemma dec_val: "digits_val 10 (dec n) = n"
proof (induction n rule: dec.induct)
  case (1 n)
  show ?case
  proof (cases "n < 10")
    case True
    then show ?thesis by (simp add: dec_small digits_val_def digit_char_props)
  next
    case False
    then have "digits_val 10 (dec (n div 10)) = n div 10" using 1 by simp
    then show ?thesis using False
      by (simp add: dec_big digits_val_snoc digit_char_props)
  qed
qed

lemma dec_hd: "hd (dec n) = CHR ''0'' \<Longrightarrow> n = 0"
proof (induction n rule: dec.induct)
  case (1 n)
  show ?case
  proof (cases "n < 10")
    case True
    with 1(2) show ?thesis by (simp add: dec_small digit_char_props)
  next
    case False
    have ne: "dec (n div 10) \<noteq> []" using dec_digits by blast
    from 1(2) False have "hd (dec (n div 10)) = CHR ''0''"
      by (simp add: dec_big ne)
    with 1(1) False have "n div 10 = 0" by simp
    with False show ?thesis by simp
  qed
qed

lemma dec_zero: "dec 0 = ''0''"
  by (simp add: dec_small digit_char_def)

lemma array_index_dec: "n < 4294967295 \<Longrightarrow> array_index (dec n) = Some n"
  using dec_digits [of n] dec_hd [of n] dec_zero
  by (auto simp: array_index_def dec_val)

lemma digits_first:
  assumes "list_all is_digit ds" and "ds \<noteq> []"
  shows "\<not> js_space (hd ds)" and "\<not> js_space (last ds)" and "hd ds \<noteq> CHR ''+''" and "hd ds \<noteq> CHR ''-''"
    and "CHR ''.'' \<notin> set ds" and "CHR ''x'' \<notin> set ds" and "CHR ''X'' \<notin> set ds"
proof -
  have a: "\<And>c. c \<in> set ds \<Longrightarrow> is_digit c" using assms(1) by (simp add: list_all_iff)
  have h: "hd ds \<in> set ds" "last ds \<in> set ds" using assms(2) by simp_all
  have d: "\<And>c. is_digit c \<Longrightarrow> \<not> js_space c \<and> c \<noteq> CHR ''+'' \<and> c \<noteq> CHR ''-'' \<and> c \<noteq> CHR ''.''
              \<and> c \<noteq> CHR ''x'' \<and> c \<noteq> CHR ''X''"
    by (auto simp: is_digit_def js_space_def)
  show "\<not> js_space (hd ds)" "\<not> js_space (last ds)" "hd ds \<noteq> CHR ''+''" "hd ds \<noteq> CHR ''-''"
    using a h d by blast+
  show "CHR ''.'' \<notin> set ds" "CHR ''x'' \<notin> set ds" "CHR ''X'' \<notin> set ds"
    using a d by blast+
qed

lemma trim_digits:
  assumes "list_all is_digit ds" and "ds \<noteq> []"
  shows "trim ds = ds" and "dropWhile js_space ds = ds"
proof -
  obtain c cs where cs: "ds = c # cs" using assms(2) by (cases ds) auto
  have 1: "\<not> js_space c" using digits_first(1) [OF assms] cs by simp
  then show d: "dropWhile js_space ds = ds" using cs by simp
  have "rev ds \<noteq> []" using assms(2) by simp
  then obtain e es where es: "rev ds = e # es" by (cases "rev ds") auto
  have "hd (rev ds) = last ds" by (simp add: hd_rev)
  with es have "e = last ds" by simp
  then have "\<not> js_space e" using digits_first(2) [OF assms] by simp
  then have "dropWhile js_space (rev ds) = rev ds" using es by simp
  then show "trim ds = ds" using d by (simp add: trim_def)
qed

lemma takeWhile_all: "list_all P xs \<Longrightarrow> takeWhile P xs = xs \<and> dropWhile P xs = []"
  by (induction xs) auto

lemma is_numeric_digits:
  assumes "list_all is_digit ds" and "ds \<noteq> []"
  shows "is_numeric ds"
proof -
  obtain c cs where cs: "ds = c # cs" using assms(2) by (cases ds) auto
  have s: "c \<noteq> CHR ''+''" "c \<noteq> CHR ''-''" using digits_first(3,4) [OF assms] cs by simp_all
  have tw: "takeWhile is_digit ds = ds" and dw: "dropWhile is_digit ds = []"
    using takeWhile_all [OF assms(1)] by simp_all
  have "unsigned_decimal ds"
    using assms(2) by (simp add: unsigned_decimal_def tw dw)
  then show ?thesis
    using trim_digits(1) [OF assms] cs s by (simp add: is_numeric_def)
qed

lemma parseInt_digits:
  assumes "list_all is_digit ds" and "ds \<noteq> []"
  shows "parseInt ds = Some (int (digits_val 10 ds))"
proof -
  obtain c cs where cs: "ds = c # cs" using assms(2) by (cases ds) auto
  have s: "c \<noteq> CHR ''+''" "c \<noteq> CHR ''-''" using digits_first(3,4) [OF assms] cs by simp_all
  have x: "CHR ''x'' \<notin> set ds" "CHR ''X'' \<notin> set ds" using digits_first(6,7) [OF assms] by simp_all
  have nohex: "\<not> (case ds of z # x # _ \<Rightarrow> z = CHR ''0'' \<and> (x = CHR ''x'' \<or> x = CHR ''X'') | _ \<Rightarrow> False)"
    using x by (auto split: list.splits)
  have tw: "takeWhile is_digit ds = ds"
    using takeWhile_all [OF assms(1)] by simp
  have u: "(case ds of c # r \<Rightarrow> if c = CHR ''+'' \<or> c = CHR ''-'' then r else ds | [] \<Rightarrow> ds) = ds"
    using s cs by simp
  have n: "\<not> (case ds of c # _ \<Rightarrow> c = CHR ''-'' | [] \<Rightarrow> False)"
    using s cs by simp
  show ?thesis
    unfolding parseInt_def Let_def trim_digits(2) [OF assms] u
    using assms(2) nohex n by (simp add: tw)
qed

lemma is_numeric_dec: "is_numeric (dec n)"
  using dec_digits [of n] by (simp add: is_numeric_digits)

lemma parseInt_dec: "parseInt (dec n) = Some (int n)"
  using dec_digits [of n] by (simp add: parseInt_digits dec_val)

lemma dec_no_dot: "CHR ''.'' \<notin> set (dec n)"
  using dec_digits [of n] digits_first(5) by blast

lemma array_index_numeric: "array_index k = Some n \<Longrightarrow> is_numeric k"
  by (auto simp: array_index_def is_numeric_digits split: if_splits)

lemma safe_key_not_index: "safe_key k \<Longrightarrow> array_index k = None"
  using array_index_numeric [of k] by (cases "array_index k") (auto simp: safe_key_def)

subsection \<open>Setting a value below a known place\<close>

lemma safe_key_props:
  assumes "safe_key k"
  shows "\<not> is_numeric k" and "CHR ''.'' \<notin> set k" and "k \<notin> set object_proto_names"
    and "array_index k = None"
  using assms safe_key_not_index by (simp_all add: safe_key_def)

lemma obj_set_new:
  "k \<notin> fst ` set qs \<Longrightarrow> array_index k = None \<Longrightarrow> obj_set qs k v = qs @ [(k, v)]"
  by (simp add: obj_set_def)

lemma map_replace_absent:
  "k \<notin> fst ` set qs \<Longrightarrow> map (\<lambda>(k', v'). if k' = k then (k', v) else (k', v')) qs = qs"
  by (induction qs) auto

lemma obj_set_last:
  "k \<notin> fst ` set qs \<Longrightarrow> obj_set (qs @ [(k, c)]) k v = qs @ [(k, v)]"
  by (simp add: obj_set_def map_replace_absent)

lemma opt_field_absent:
  "k \<notin> fst ` set qs \<Longrightarrow> opt_field (JObj qs) k = JUndefined"
  by (simp add: map_of_eq_None_iff [THEN iffD2])

lemma opt_field_last:
  "k \<notin> fst ` set qs \<Longrightarrow> opt_field (JObj (qs @ [(k, c)])) k = c"
  by (simp add: map_of_eq_None_iff [THEN iffD2] map_add_def)

lemma arr_set_end: "arr_set xs (length xs) v = xs @ [v]"
  by (simp add: arr_set_def)

lemma arr_set_last: "arr_set (xs @ [c]) (length xs) v = xs @ [v]"
  by (simp add: arr_set_def)

lemma truthy_container: "is_container c \<Longrightarrow> truthy c"
  by (cases c) (simp_all add: is_container_def)

text \<open>leaf writes\<close>

lemma setNested_obj_leaf:
  assumes "safe_key k" and "k \<notin> fst ` set qs"
  shows "setNested (JObj qs) [k] v = Some (Inr (JObj (qs @ [(k, v)])))"
  using safe_key_props [OF assms(1)] assms(2) by (simp add: obj_set_new)

lemma index_key_dec: "n < 4294967295 \<Longrightarrow> index_key (parseInt (dec n)) = Some (dec n)"
  by (simp add: parseInt_dec index_key_def int_digits_def)

lemma arr_get_last: "n = length xs \<Longrightarrow> n < 4294967295 \<Longrightarrow> arr_get (xs @ [c]) [] (dec n) = c"
  by (simp add: arr_get_def array_index_dec)

lemma arr_get_absent: "n = length xs \<Longrightarrow> n < 4294967295 \<Longrightarrow> arr_get xs [] (dec n) = JUndefined"
  by (simp add: arr_get_def array_index_dec)

lemma arr_put_index: "n < 4294967295 \<Longrightarrow> arr_put xs [] (dec n) v = JArr (arr_set xs n v)"
  by (simp add: arr_put_def array_index_dec mk_array_def)

lemma setNested_arr_leaf:
  assumes "length xs < 4294967295"
  shows "setNested (JArr xs) [dec (length xs)] v = Some (Inr (JArr (xs @ [v])))"
  using assms by (simp add: is_numeric_dec arr_put_index arr_set_end)

text \<open>descending into an existing last child\<close>

lemma setNested_obj_descend:
  assumes "safe_key k" and "k \<notin> fst ` set qs" and "is_container c"
  shows "setNested (JObj (qs @ [(k, c)])) (k # k' # ks) v
           = lift_result (\<lambda>c. JObj (qs @ [(k, c)])) (setNested c (k' # ks) v)"
  using safe_key_props [OF assms(1)] assms(2) truthy_container [OF assms(3)]
  by (auto simp: opt_field_last obj_set_last lift_result_def simp del: opt_field.simps
      split: option.splits sum.splits)

lemma setNested_arr_descend:
  assumes "length xs < 4294967295" and "is_container c"
  shows "setNested (JArr (xs @ [c])) (dec (length xs) # k' # ks) v
           = lift_result (\<lambda>c. JArr (xs @ [c])) (setNested c (k' # ks) v)"
  using assms(1) truthy_container [OF assms(2)]
  by (auto simp: is_numeric_dec index_key_dec arr_get_last arr_put_index arr_set_last
      lift_result_def Let_def split: option.splits sum.splits)

text \<open>the first write below an absent child creates it\<close>

lemma setNested_obj_create:
  assumes "safe_key k" and "k \<notin> fst ` set qs"
  shows "setNested (JObj qs) (k # k' # ks) v
           = setNested (JObj (qs @ [(k, if is_numeric k' then JArr [] else JObj [])])) (k # k' # ks) v"
  using safe_key_props [OF assms(1)] assms(2)
  by (auto simp: opt_field_last opt_field_absent obj_set_last obj_set_new simp del: opt_field.simps
      split: option.splits sum.splits)

lemma setNested_arr_create:
  assumes "length xs < 4294967295"
  shows "setNested (JArr xs) (dec (length xs) # k' # ks) v
           = setNested (JArr (xs @ [JObj []])) (dec (length xs) # k' # ks) v"
  using assms
  by (auto simp: is_numeric_dec index_key_dec arr_get_last arr_get_absent arr_put_index
      arr_set_last arr_set_end Let_def split: option.splits sum.splits)

text \<open>contexts\<close>

lemma transparent_id: "transparent [] (\<lambda>c. c)"
  by (auto simp: transparent_def lift_result_def split: option.splits sum.splits)

lemma lift_result_comp:
  "lift_result ctx (lift_result f r) = lift_result (\<lambda>c. ctx (f c)) r"
  by (auto simp: lift_result_def split: option.splits sum.splits)

lemma transparent_obj:
  assumes "transparent pre ctx" and "safe_key k" and "k \<notin> fst ` set qs"
  shows "transparent (pre @ [k]) (\<lambda>c. ctx (JObj (qs @ [(k, c)])))"
  unfolding transparent_def
proof (intro allI impI)
  fix c k' ks v assume c: "is_container c"
  have o: "is_container (JObj (qs @ [(k, c)]))" by (simp add: is_container_def)
  have "setNested (ctx (JObj (qs @ [(k, c)]))) ((pre @ [k]) @ k' # ks) v
      = setNested (ctx (JObj (qs @ [(k, c)]))) (pre @ k # k' # ks) v" by simp
  also have "\<dots> = lift_result ctx (setNested (JObj (qs @ [(k, c)])) (k # k' # ks) v)"
    using assms(1) o unfolding transparent_def by blast
  also have "\<dots> = lift_result ctx (lift_result (\<lambda>c. JObj (qs @ [(k, c)])) (setNested c (k' # ks) v))"
    using setNested_obj_descend [OF assms(2,3) c] by simp
  finally show "setNested (ctx (JObj (qs @ [(k, c)]))) ((pre @ [k]) @ k' # ks) v
      = lift_result (\<lambda>c. ctx (JObj (qs @ [(k, c)]))) (setNested c (k' # ks) v)"
    by (simp add: lift_result_comp)
qed

lemma transparent_arr:
  assumes "transparent pre ctx" and "length xs < 4294967295"
  shows "transparent (pre @ [dec (length xs)]) (\<lambda>c. ctx (JArr (xs @ [c])))"
  unfolding transparent_def
proof (intro allI impI)
  fix c k' ks v assume c: "is_container c"
  have o: "is_container (JArr (xs @ [c]))" by (simp add: is_container_def)
  have "setNested (ctx (JArr (xs @ [c]))) ((pre @ [dec (length xs)]) @ k' # ks) v
      = setNested (ctx (JArr (xs @ [c]))) (pre @ dec (length xs) # k' # ks) v" by simp
  also have "\<dots> = lift_result ctx (setNested (JArr (xs @ [c])) (dec (length xs) # k' # ks) v)"
    using assms(1) o unfolding transparent_def by blast
  also have "\<dots> = lift_result ctx (lift_result (\<lambda>c. JArr (xs @ [c])) (setNested c (k' # ks) v))"
    using setNested_arr_descend [OF assms(2) c] by simp
  finally show "setNested (ctx (JArr (xs @ [c]))) ((pre @ [dec (length xs)]) @ k' # ks) v
      = lift_result (\<lambda>c. ctx (JArr (xs @ [c]))) (setNested c (k' # ks) v)"
    by (simp add: lift_result_comp)
qed

lemma apply_leaves_append:
  "apply_leaves (ws1 @ ws2) r =
     (case apply_leaves ws1 r of Some (Inr r') \<Rightarrow> apply_leaves ws2 r' | x \<Rightarrow> x)"
  by (induction ws1 arbitrary: r) (auto split: option.splits sum.splits)

lemma leaves_nonempty:
  shows "safe_value v \<Longrightarrow> leaves_value env v \<noteq> []"
    and "safe_entries ps \<Longrightarrow> ps \<noteq> [] \<Longrightarrow> leaves_entries env ps \<noteq> []"
    and "safe_items xs \<Longrightarrow> xs \<noteq> [] \<Longrightarrow> leaves_items env xs i \<noteq> []"
proof (induction env v and env ps and env xs i rule: leaves_value_leaves_entries_leaves_items.induct)
  case (11 env x xs i)
  then show ?case by (cases x) auto
qed auto

lemma leaves_entries_first:
  assumes "safe_entries ps" and "ps \<noteq> []"
  shows "\<exists>k ks s ws. leaves_entries env ps = (k # ks, s) # ws \<and> \<not> is_numeric k"
proof -
  obtain k v ps' where ps: "ps = (k, v) # ps'" using assms(2) by (cases ps) auto
  then have "safe_key k" "safe_value v" using assms(1) by simp_all
  then obtain ks s ws where "leaves_value env v = (ks, s) # ws"
    using leaves_nonempty(1) [of v] by (cases "leaves_value env v") auto
  then show ?thesis using ps \<open>safe_key k\<close> by (auto simp: safe_key_def)
qed

lemma leaves_items_first:
  assumes "safe_items xs" and "xs \<noteq> []"
  shows "\<exists>ks s ws. leaves_items env xs i = (dec i # ks, s) # ws"
proof -
  obtain x xs' where xs: "xs = x # xs'" using assms(2) by (cases xs) auto
  have "leaves_value env x \<noteq> []" using assms(1) xs by (cases x) (auto simp: leaves_nonempty(2))
  then obtain ks s ws where "leaves_value env x = (ks, s) # ws"
    by (cases "leaves_value env x") auto
  then show ?thesis using xs by auto
qed

text \<open>The first record below an absent child may as well find the child there, empty.\<close>

lemma first_write_obj:
  assumes "transparent pre ctx" and "safe_key k" and "k \<notin> fst ` set qs"
  shows "apply_leaves ((pre @ k # k1 # ks1, s) # ws) (ctx (JObj qs))
       = apply_leaves ((pre @ k # k1 # ks1, s) # ws)
           (ctx (JObj (qs @ [(k, if is_numeric k1 then JArr [] else JObj [])])))"
proof -
  have "setNested (ctx (JObj qs)) (pre @ k # k1 # ks1) (JStr s)
      = lift_result ctx (setNested (JObj qs) (k # k1 # ks1) (JStr s))"
    using assms(1) unfolding transparent_def by (simp add: is_container_def)
  also have "\<dots> = lift_result ctx
       (setNested (JObj (qs @ [(k, if is_numeric k1 then JArr [] else JObj [])])) (k # k1 # ks1) (JStr s))"
    using setNested_obj_create [OF assms(2,3)] by simp
  also have "\<dots> = setNested (ctx (JObj (qs @ [(k, if is_numeric k1 then JArr [] else JObj [])])))
                      (pre @ k # k1 # ks1) (JStr s)"
    using assms(1) unfolding transparent_def by (simp add: is_container_def)
  finally show ?thesis by simp
qed

lemma first_write_arr:
  assumes "transparent pre ctx" and "length ys < 4294967295"
  shows "apply_leaves ((pre @ dec (length ys) # k1 # ks1, s) # ws) (ctx (JArr ys))
       = apply_leaves ((pre @ dec (length ys) # k1 # ks1, s) # ws) (ctx (JArr (ys @ [JObj []])))"
proof -
  have "setNested (ctx (JArr ys)) (pre @ dec (length ys) # k1 # ks1) (JStr s)
      = lift_result ctx (setNested (JArr ys) (dec (length ys) # k1 # ks1) (JStr s))"
    using assms(1) unfolding transparent_def by (simp add: is_container_def)
  also have "\<dots> = lift_result ctx
       (setNested (JArr (ys @ [JObj []])) (dec (length ys) # k1 # ks1) (JStr s))"
    using setNested_arr_create [OF assms(2)] by simp
  also have "\<dots> = setNested (ctx (JArr (ys @ [JObj []]))) (pre @ dec (length ys) # k1 # ks1) (JStr s)"
    using assms(1) unfolding transparent_def by (simp add: is_container_def)
  finally show ?thesis by simp
qed

lemma leaf_in_obj:
  assumes "transparent pre ctx" and "safe_key k" and "k \<notin> fst ` set qs"
  shows "apply_leaves (prepend (pre @ [k]) [([], s)]) (ctx (JObj qs))
       = Some (Inr (ctx (JObj (qs @ [(k, JStr s)]))))"
proof -
  have "setNested (ctx (JObj qs)) (pre @ [k]) (JStr s) = lift_result ctx (setNested (JObj qs) [k] (JStr s))"
    using assms(1) unfolding transparent_def by (simp add: is_container_def)
  then show ?thesis
    using setNested_obj_leaf [OF assms(2,3)] by (simp add: lift_result_def)
qed

lemma leaf_in_arr:
  assumes "transparent pre ctx" and "length ys < 4294967295"
  shows "apply_leaves (prepend (pre @ [dec (length ys)]) [([], s)]) (ctx (JArr ys))
       = Some (Inr (ctx (JArr (ys @ [JStr s]))))"
proof -
  have "setNested (ctx (JArr ys)) (pre @ [dec (length ys)]) (JStr s)
      = lift_result ctx (setNested (JArr ys) [dec (length ys)] (JStr s))"
    using assms(1) unfolding transparent_def by (simp add: is_container_def)
  then show ?thesis
    using setNested_arr_leaf [OF assms(2)] by (simp add: lift_result_def)
qed

subsection \<open>Rebuilding from the leaves\<close>

lemma prepend_comp:
  "(\<lambda>(ks, y). (pre @ ks, y)) \<circ> (\<lambda>(ks, y). (k # ks, y)) = (\<lambda>(ks, s::string). (pre @ k # ks, s))"
  by (auto simp: fun_eq_iff)

lemma rebuild_leaves:
  shows "\<And>pre ctx qs k. transparent pre ctx \<Longrightarrow> safe_value v \<Longrightarrow> safe_key k \<Longrightarrow>
           k \<notin> fst ` set qs \<Longrightarrow>
           apply_leaves (prepend (pre @ [k]) (leaves_value env v)) (ctx (JObj qs))
             = Some (Inr (ctx (JObj (qs @ [(k, coerce_value env v)]))))"
        "\<And>pre ctx ys. transparent pre ctx \<Longrightarrow> safe_items [v] \<Longrightarrow> length ys < 4294967295 \<Longrightarrow>
           apply_leaves (prepend (pre @ [dec (length ys)]) (leaves_value env v)) (ctx (JArr ys))
             = Some (Inr (ctx (JArr (ys @ [coerce_value env v]))))"
    and "\<And>pre ctx qs. transparent pre ctx \<Longrightarrow> safe_entries ps \<Longrightarrow> distinct (map fst ps) \<Longrightarrow>
           fst ` set ps \<inter> fst ` set qs = {} \<Longrightarrow>
           apply_leaves (prepend pre (leaves_entries env ps)) (ctx (JObj qs))
             = Some (Inr (ctx (JObj (qs @ coerce_entries env ps))))"
    and "\<And>pre ctx ys. transparent pre ctx \<Longrightarrow> safe_items xs \<Longrightarrow> i = length ys \<Longrightarrow>
           length ys + length xs < 4294967296 \<Longrightarrow>
           apply_leaves (prepend pre (leaves_items env xs i)) (ctx (JArr ys))
             = Some (Inr (ctx (JArr (ys @ coerce_items env xs))))"
proof (induction env v and env ps and env xs i rule: leaves_value_leaves_entries_leaves_items.induct)
  case (1 env ps)
  { case 1
    from 1(2) have ne: "ps \<noteq> []" and d: "distinct (map fst ps)" and se: "safe_entries ps" by simp_all
    obtain k1 ks1 s1 ws where l: "leaves_entries env ps = (k1 # ks1, s1) # ws" and n: "\<not> is_numeric k1"
      using leaves_entries_first [OF se ne] by blast
    let ?ctx = "\<lambda>c. ctx (JObj (qs @ [(k, c)]))"
    have t: "transparent (pre @ [k]) ?ctx" using transparent_obj [OF 1(1,3,4)] .
    have "apply_leaves (prepend (pre @ [k]) (leaves_entries env ps)) (ctx (JObj qs))
        = apply_leaves (prepend (pre @ [k]) (leaves_entries env ps)) (?ctx (JObj []))"
      using first_write_obj [OF 1(1,3,4), of k1 ks1 s1 "prepend (pre @ [k]) ws"] n
      by (simp add: l)
    also have "\<dots> = Some (Inr (?ctx (JObj ([] @ coerce_entries env ps))))"
      using "1.IH" [OF t se d] by simp
    finally show ?case by simp
  next
    case 2
    from 2(2) have ne: "ps \<noteq> []" and d: "distinct (map fst ps)" and se: "safe_entries ps" by simp_all
    obtain k1 ks1 s1 ws where l: "leaves_entries env ps = (k1 # ks1, s1) # ws"
      using leaves_entries_first [OF se ne] by blast
    let ?ctx = "\<lambda>c. ctx (JArr (ys @ [c]))"
    have t: "transparent (pre @ [dec (length ys)]) ?ctx" using transparent_arr [OF 2(1,3)] .
    have "apply_leaves (prepend (pre @ [dec (length ys)]) (leaves_entries env ps)) (ctx (JArr ys))
        = apply_leaves (prepend (pre @ [dec (length ys)]) (leaves_entries env ps)) (?ctx (JObj []))"
      using first_write_arr [OF 2(1,3), of k1 ks1 s1 "prepend (pre @ [dec (length ys)]) ws"]
      by (simp add: l)
    also have "\<dots> = Some (Inr (?ctx (JObj ([] @ coerce_entries env ps))))"
      using "1.IH" [OF t se d] by simp
    finally show ?case by simp
  }
next
  case (2 env xs)
  { case 1
    from 1(2) have ne: "xs \<noteq> []" and len: "length xs < 4294967296" and si: "safe_items xs" by simp_all
    obtain ks1 s1 ws where l: "leaves_items env xs 0 = (dec 0 # ks1, s1) # ws"
      using leaves_items_first [OF si ne] by blast
    let ?ctx = "\<lambda>c. ctx (JObj (qs @ [(k, c)]))"
    have t: "transparent (pre @ [k]) ?ctx" using transparent_obj [OF 1(1,3,4)] .
    have "apply_leaves (prepend (pre @ [k]) (leaves_items env xs 0)) (ctx (JObj qs))
        = apply_leaves (prepend (pre @ [k]) (leaves_items env xs 0)) (?ctx (JArr []))"
      using first_write_obj [OF 1(1,3,4), of "dec 0" ks1 s1 "prepend (pre @ [k]) ws"]
      by (simp add: l is_numeric_dec)
    also have "\<dots> = Some (Inr (?ctx (JArr ([] @ coerce_items env xs))))"
      using "2.IH" [OF t si, of "[]"] len by simp
    finally show ?case by simp
  next
    case 2
    then show ?case by simp
  }
next
  case 3
  { case 1 then show ?case by simp
  next
    case 2 then show ?case by simp }
next
  case 4
  { case 1 then show ?case using leaf_in_obj by simp
  next
    case 2 then show ?case by simp }
next
  case (5 env b)
  { case 1 then show ?case using leaf_in_obj by simp
  next
    case 2 then show ?case using leaf_in_arr by simp }
next
  case (6 env n)
  { case 1 then show ?case using leaf_in_obj by simp
  next
    case 2 then show ?case using leaf_in_arr by simp }
next
  case (7 env s)
  { case 1 then show ?case using leaf_in_obj by simp
  next
    case 2 then show ?case using leaf_in_arr by simp }
next
  case 8
  then show ?case by simp
next
  case (9 env k v ps)
  from 9(5) have sk: "safe_key k" and sv: "safe_value v" and se: "safe_entries ps" by simp_all
  from 9(6) have nk: "k \<notin> fst ` set ps" and d: "distinct (map fst ps)" by simp_all
  from 9(7) have kq: "k \<notin> fst ` set qs" and dis: "fst ` set ps \<inter> fst ` set qs = {}" by auto
  have 1: "apply_leaves (prepend (pre @ [k]) (leaves_value env v)) (ctx (JObj qs))
             = Some (Inr (ctx (JObj (qs @ [(k, coerce_value env v)]))))"
    using "9.IH"(1) [OF 9(4) sv sk kq] .
  have dis': "fst ` set ps \<inter> fst ` set (qs @ [(k, coerce_value env v)]) = {}"
    using nk dis by auto
  have 2: "apply_leaves (prepend pre (leaves_entries env ps)) (ctx (JObj (qs @ [(k, coerce_value env v)])))
             = Some (Inr (ctx (JObj ((qs @ [(k, coerce_value env v)]) @ coerce_entries env ps))))"
    using "9.IH"(3) [OF 9(4) se d dis'] .
  show ?case
    using 1 2 by (simp add: apply_leaves_append prepend_comp)
next
  case (10 env i)
  then show ?case by simp
next
  case (11 env x xs i)
  from 11(5) have sx: "safe_items [x]" and si: "safe_items xs" by simp_all
  from 11(7) have ly: "length ys < 4294967295" by simp
  have 1: "apply_leaves (prepend (pre @ [dec (length ys)]) (leaves_value env x)) (ctx (JArr ys))
             = Some (Inr (ctx (JArr (ys @ [coerce_value env x]))))"
    using "11.IH"(2) [OF 11(4) sx ly] .
  have 2: "apply_leaves (prepend pre (leaves_items env xs (Suc i))) (ctx (JArr (ys @ [coerce_value env x])))
             = Some (Inr (ctx (JArr ((ys @ [coerce_value env x]) @ coerce_items env xs))))"
    using "11.IH"(3) [OF 11(4) si, of "ys @ [coerce_value env x]"] 11(6,7) by simp
  show ?case
    using 1 2 11(6) by (simp add: apply_leaves_append prepend_comp)
next
  case (12 env xs ps)
  { case 1 then show ?case by simp
  next
    case 2 then show ?case by simp }
qed

subsection \<open>The records of a flattening are its leaves\<close>

lemma split_dot_key:
  "prefix \<noteq> [] \<Longrightarrow> CHR ''.'' \<notin> set k \<Longrightarrow>
   split_dot (element_of prefix k) = split_dot prefix @ [k]"
  by (simp add: element_of_def split_dot_dot split_dot_nodot)

lemma split_dot_index: "split_dot (el @ CHR ''.'' # dec i) = split_dot el @ [dec i]"
  by (simp add: split_dot_dot split_dot_nodot dec_no_dot)

lemma then_calls_ok:
  "a = (None, ws1) \<Longrightarrow> b = (None, ws2) \<Longrightarrow> then_calls a b = (None, ws1 @ ws2)"
  by (simp add: then_calls_def)

lemma safe_item_calls:
  assumes "safe_items [x]"
  shows "(case x of
          JUndefined \<Rightarrow> (None, [])
        | JNull \<Rightarrow> storeCmiData_calls env JNull p
        | JObj ps \<Rightarrow> entries_calls env ps p
        | JArr xs \<Rightarrow> index_entries_calls env xs 0 p
        | JArrN xs ps \<Rightarrow>
            then_calls (index_entries_calls env xs 0 p) (entries_calls env ps p)
        | _ \<Rightarrow> (None, [(p, String_of env x)])) = entry_calls env x p"
    and "safe_value x"
  using assms by (cases x; simp)+

lemma calls_leaves:
  shows "\<And>el. el \<noteq> [] \<Longrightarrow> safe_value v \<Longrightarrow>
           \<exists>ws. entry_calls env v el = (None, ws) \<and> split_paths ws = prepend (split_dot el) (leaves_value env v)"
    and "\<And>prefix. prefix \<noteq> [] \<Longrightarrow> safe_entries ps \<Longrightarrow>
           \<exists>ws. entries_calls env ps prefix = (None, ws)
              \<and> split_paths ws = prepend (split_dot prefix) (leaves_entries env ps)"
    and "\<And>el. el \<noteq> [] \<Longrightarrow> safe_items xs \<Longrightarrow>
           \<exists>ws. forEach_calls env xs i el = (None, ws)
              \<and> split_paths ws = prepend (split_dot el) (leaves_items env xs i)"
proof (induction env v and env ps and env xs i rule: leaves_value_leaves_entries_leaves_items.induct)
  case (1 env ps)
  then show ?case by simp
next
  case (2 env xs)
  then show ?case by simp
next
  case (9 env k v ps)
  from 9(4) have sk: "safe_key k" and sv: "safe_value v" and se: "safe_entries ps" by simp_all
  have nd: "CHR ''.'' \<notin> set k" using sk by (simp add: safe_key_def)
  have ne: "element_of prefix k \<noteq> []" using 9(3) by (simp add: element_of_def)
  obtain ws1 where 1: "entry_calls env v (element_of prefix k) = (None, ws1)"
      "split_paths ws1 = prepend (split_dot (element_of prefix k)) (leaves_value env v)"
    using "9.IH"(1) [OF ne sv] by blast
  obtain ws2 where 2: "entries_calls env ps prefix = (None, ws2)"
      "split_paths ws2 = prepend (split_dot prefix) (leaves_entries env ps)"
    using "9.IH"(2) [OF 9(3) se] by blast
  have "entries_calls env ((k, v) # ps) prefix = (None, ws1 @ ws2)"
    using 1(1) 2(1) by (simp add: then_calls_ok)
  moreover have "split_paths (ws1 @ ws2) = prepend (split_dot prefix) (leaves_entries env ((k, v) # ps))"
    using 1(2) 2(2) by (simp add: split_dot_key [OF 9(3) nd] prepend_comp)
  ultimately show ?case by blast
next
  case (11 env x xs i)
  from 11(4) have sx: "safe_items [x]" and si: "safe_items xs" by simp_all
  have ne: "el @ ''.'' @ dec i \<noteq> []" by simp
  obtain ws1 where 1: "entry_calls env x (el @ ''.'' @ dec i) = (None, ws1)"
      "split_paths ws1 = prepend (split_dot (el @ ''.'' @ dec i)) (leaves_value env x)"
    using "11.IH"(1) [OF ne safe_item_calls(2) [OF sx]] by blast
  obtain ws2 where 2: "forEach_calls env xs (Suc i) el = (None, ws2)"
      "split_paths ws2 = prepend (split_dot el) (leaves_items env xs (Suc i))"
    using "11.IH"(2) [OF 11(3) si] by blast
  have "forEach_calls env (x # xs) i el = (None, ws1 @ ws2)"
    using 1(1) 2(1) safe_item_calls(1) [OF sx, where p = "el @ ''.'' @ dec i"]
    by (simp add: then_calls_ok)
  moreover have "split_paths (ws1 @ ws2) = prepend (split_dot el) (leaves_items env (x # xs) i)"
    using 1(2) 2(2) by (simp add: split_dot_index prepend_comp)
  ultimately show ?case by blast
qed simp_all

lemma setCmiData_all_rows:
  assumes "stmt_getSession d sid \<noteq> None"
  shows "\<exists>rows. setCmiData_all now d sid ws = (None, d\<lparr>cmi_data := cmi_data d @ rows\<rparr>)
           \<and> map (\<lambda>r. (element r, cmi_value r)) rows = map (\<lambda>(p, s). (p, JStr s)) ws
           \<and> (\<forall>r \<in> set rows. cmi_session_id r = sid \<and> cmi_timestamp r = now)"
  using assms
proof (induction ws arbitrary: d)
  case Nil
  show ?case by (rule exI [of _ "[]"]) simp
next
  case (Cons w ws)
  obtain p s where w: "w = (p, s)" by (cases w)
  define row where "row = \<lparr>cmi_id = next_id (map cmi_id (cmi_data d)), cmi_session_id = sid,
                     element = p, cmi_value = JStr s, cmi_timestamp = now\<rparr>"
  define d1 where "d1 = d\<lparr>cmi_data := cmi_data d @ [row]\<rparr>"
  have 1: "setCmiData now d sid p (JStr s) = Inr d1"
    using Cons.prems
    by (auto simp: setCmiData_def stmt_insertCmiData_def d1_def row_def bind_args_def bind_next_def)
  have "stmt_getSession d1 sid \<noteq> None"
    using Cons.prems by (simp add: d1_def stmt_getSession_def)
  from Cons.IH [OF this] obtain rows where r:
    "setCmiData_all now d1 sid ws = (None, d1\<lparr>cmi_data := cmi_data d1 @ rows\<rparr>)"
    "map (\<lambda>r. (element r, cmi_value r)) rows = map (\<lambda>(p, s). (p, JStr s)) ws"
    "\<forall>r \<in> set rows. cmi_session_id r = sid \<and> cmi_timestamp r = now"
    by blast
  show ?case
  proof (rule exI [of _ "row # rows"], intro conjI)
    show "setCmiData_all now d sid (w # ws) = (None, d\<lparr>cmi_data := cmi_data d @ row # rows\<rparr>)"
      using 1 r(1) by (simp add: w d1_def)
    show "map (\<lambda>r. (element r, cmi_value r)) (row # rows) = map (\<lambda>(p, s). (p, JStr s)) (w # ws)"
      using r(2) by (simp add: w row_def)
    show "\<forall>r \<in> set (row # rows). cmi_session_id r = sid \<and> cmi_timestamp r = now"
      using r(3) by (simp add: row_def)
  qed
qed

lemma rebuild_apply_leaves:
  "map (\<lambda>r. (element r, cmi_value r)) rows = map (\<lambda>(p, s). (p, JStr s)) ws \<Longrightarrow>
   rebuild rows cmi = apply_leaves (split_paths ws) cmi"
proof (induction rows arbitrary: ws cmi)
  case Nil
  then show ?case by simp
next
  case (Cons r rows)
  then obtain p s ws' where ws: "ws = (p, s) # ws'" by (cases ws) auto
  with Cons.prems have e: "element r = p" "cmi_value r = JStr s"
    and m: "map (\<lambda>r. (element r, cmi_value r)) rows = map (\<lambda>(p, s). (p, JStr s)) ws'"
    by simp_all
  show ?case
    using Cons.IH [OF m] e
    by (simp add: ws setNestedValue_def split: option.splits sum.splits)
qed

lemma sort_key_const:
  "\<forall>r \<in> set rows. f r = (c::nat) \<Longrightarrow> sort_key f rows = rows"
proof -
  assume a: "\<forall>r \<in> set rows. f r = c"
  then have "map f rows = replicate (length rows) c"
    by (induction rows) auto
  then have "sorted (map f rows)" by (simp add: sorted_replicate)
  then show ?thesis by (rule sort_key_id_if_sorted)
qed

lemma safe_key_cmi: "safe_key ''cmi''"
  by (simp add: safe_key_def is_numeric_def trim_def js_space_def non_decimal_def
      unsigned_decimal_def is_digit_def object_proto_names_def)

text \<open>
  C1 (as stated, refuted). The tree \<open>{a: {"0": "x"}}\<close> has only string leaves.
  Its one record has the path \<open>cmi.a.0\<close>; on the way back the segment \<open>0\<close>
  reads as a number, so \<open>a\<close> is rebuilt as an array: the result is
  \<open>{cmi: {a: ["x"]}}\<close>, which is neither the tree nor the tree under \<open>cmi\<close>.
\<close>

theorem roundtrip_numeric_key_counterexample:
  "getCmiData
     (snd (storeCmiData stub_env 5 (empty_db\<lparr>scorm_sessions := [session_s1]\<rparr>) ''s1''
             (JObj [(''a'', JObj [(''0'', JStr ''x'')])]) ''cmi''))
     ''s1'' None
   = Some (Inr (JObj [(''cmi'', JObj [(''a'', JArr [JStr ''x''])])]))
   \<and> getCmiData
     (snd (storeCmiData stub_env 5 (empty_db\<lparr>scorm_sessions := [session_s1]\<rparr>) ''s1''
             (JObj [(''a'', JObj [(''0'', JStr ''x'')])]) ''cmi''))
     ''s1'' None
   \<noteq> Some (Inr (coerce_value stub_env (JObj [(''a'', JObj [(''0'', JStr ''x'')])])))
   \<and> getCmiData
     (snd (storeCmiData stub_env 5 (empty_db\<lparr>scorm_sessions := [session_s1]\<rparr>) ''s1''
             (JObj [(''a'', JObj [(''0'', JStr ''x'')])]) ''cmi''))
     ''s1'' None
   \<noteq> Some (Inr (JObj [(''cmi'', coerce_value stub_env (JObj [(''a'', JObj [(''0'', JStr ''x'')])]))]))"
  by (simp add: storeCmiData_def element_of_def then_calls_def setCmiData_def
      stmt_insertCmiData_def stmt_getSession_def empty_db_def session_s1_def next_id_def
      getCmiData_def stmt_getAllCmiData_def setNestedValue_def safe_key_def is_numeric_def
      trim_def js_space_def non_decimal_def unsigned_decimal_def is_digit_def
      object_proto_names_def exponent_ok_def obj_set_def array_index_def digits_val_def
      digit_val_def arr_set_def bind_args_def bind_next_def arr_put_def mk_array_def)

text \<open>
  C1 (amended). Let \<open>T\<close> be an object tree in which every object and array is
  non-empty, the keys of an object are distinct, contain no dot, do not convert to
  a number and are not inherited names, and every array holds only strings,
  numbers, booleans and such objects (no null, no array); the leaves are strings,
  numbers (whole or fractional, of any size), booleans and null. Storing \<open>T\<close>
  with \<open>storeCmiData\<close> for an existing session without earlier records succeeds,
  and \<open>getCmiData\<close> then rebuilds \<open>{cmi: T'}\<close>, where \<open>T'\<close> is \<open>T\<close> with every
  leaf replaced by its string form, whatever \<open>String\<close> makes of a number.
\<close>

theorem storeCmiData_getCmiData_roundtrip:
  assumes "safe_value (JObj ps)"
      and "getSession d sessionId \<noteq> None"
      and "filter (\<lambda>r. cmi_session_id r = sessionId) (cmi_data d) = []"
  shows "\<exists>d'. storeCmiData env now d sessionId (JObj ps) ''cmi'' = (None, d')
           \<and> getCmiData d' sessionId None
               = Some (Inr (JObj [(''cmi'', coerce_value env (JObj ps))]))"
proof -
  have se: "safe_entries ps" using assms(1) by simp
  obtain ws where c: "entries_calls env ps ''cmi'' = (None, ws)"
      and sp: "split_paths ws = prepend (split_dot ''cmi'') (leaves_entries env ps)"
    using calls_leaves(2) [OF _ se, of "''cmi''"] by auto
  have s: "stmt_getSession d sessionId \<noteq> None" using assms(2) by (simp add: getSession_def)
  obtain rows where r:
    "setCmiData_all now d sessionId ws = (None, d\<lparr>cmi_data := cmi_data d @ rows\<rparr>)"
    "map (\<lambda>r. (element r, cmi_value r)) rows = map (\<lambda>(p, s). (p, JStr s)) ws"
    "\<forall>r \<in> set rows. cmi_session_id r = sessionId \<and> cmi_timestamp r = now"
    using setCmiData_all_rows [OF s, of now ws] by blast
  let ?d' = "d\<lparr>cmi_data := cmi_data d @ rows\<rparr>"
  have store: "storeCmiData env now d sessionId (JObj ps) ''cmi'' = (None, ?d')"
    using c r(1) by (simp add: storeCmiData_def)
  have "filter (\<lambda>r. cmi_session_id r = sessionId) rows = rows"
    using r(3) by (simp add: filter_id_conv)
  then have "stmt_getAllCmiData ?d' sessionId = sort_key cmi_timestamp rows"
    using assms(3) by (simp add: stmt_getAllCmiData_def)
  also have "\<dots> = rows"
    using r(3) sort_key_const [of rows cmi_timestamp now] by simp
  finally have all: "stmt_getAllCmiData ?d' sessionId = rows" .
  have "getCmiData ?d' sessionId None = rebuild rows (JObj [])"
    using all by (simp add: getCmiData_def)
  also have "\<dots> = apply_leaves (split_paths ws) (JObj [])"
    using rebuild_apply_leaves [OF r(2)] .
  also have "\<dots> = apply_leaves (prepend ([] @ [''cmi'']) (leaves_value env (JObj ps))) ((\<lambda>c. c) (JObj []))"
    using sp by simp
  also have "\<dots> = Some (Inr ((\<lambda>c. c) (JObj ([] @ [(''cmi'', coerce_value env (JObj ps))]))))"
    by (rule rebuild_leaves(1) [OF transparent_id assms(1) safe_key_cmi]) simp
  finally show ?thesis using store by simp
qed

theorem storeCmiData_getCmiData_roundtrip_witness:
  "safe_value (JObj [(''score'', JObj [(''raw'', JNum 85), (''scaled'', JNum (171 / 2))]),
                     (''tags'', JArr [JStr ''a'', JBool True])])
   \<and> getCmiData
       (snd (storeCmiData stub_env 5 (empty_db\<lparr>scorm_sessions := [session_s1]\<rparr>) ''s1''
               (JObj [(''score'', JObj [(''raw'', JNum 85), (''scaled'', JNum (171 / 2))]),
                      (''tags'', JArr [JStr ''a'', JBool True])])
               ''cmi''))
       ''s1'' None
     = Some (Inr (JObj [(''cmi'',
          JObj [(''score'', JObj [(''raw'', JStr ''85''), (''scaled'', JStr ''85.5'')]),
                (''tags'', JArr [JStr ''a'', JStr ''true''])])]))"
proof -
  have s: "safe_value (JObj [(''score'', JObj [(''raw'', JNum 85), (''scaled'', JNum (171 / 2))]),
                             (''tags'', JArr [JStr ''a'', JBool True])])"
    by (simp add: safe_key_def is_numeric_def trim_def js_space_def non_decimal_def
      unsigned_decimal_def is_digit_def object_proto_names_def exponent_ok_def)
  have g: "getSession (empty_db\<lparr>scorm_sessions := [session_s1]\<rparr>) ''s1'' \<noteq> None"
    by (simp add: getSession_def stmt_getSession_def empty_db_def session_s1_def)
  have f: "filter (\<lambda>r. cmi_session_id r = ''s1'') (cmi_data (empty_db\<lparr>scorm_sessions := [session_s1]\<rparr>)) = []"
    by (simp add: empty_db_def)
  have c: "coerce_value stub_env
             (JObj [(''score'', JObj [(''raw'', JNum 85), (''scaled'', JNum (171 / 2))]),
                    (''tags'', JArr [JStr ''a'', JBool True])])
      = JObj [(''score'', JObj [(''raw'', JStr ''85''), (''scaled'', JStr ''85.5'')]),
              (''tags'', JArr [JStr ''a'', JStr ''true''])]"
  proof -
    have "\<lfloor>171 / 2 :: rat\<rfloor> = 85" by (rule floor_unique) simp_all
    then show ?thesis
      by (simp add: String_num_def safe_integer_def int_digits_def stub_env_def dec_big dec_small
          digit_char_def)
  qed
  show ?thesis
    using storeCmiData_getCmiData_roundtrip [OF s g f, of stub_env 5] s c by auto
qed

end
